theory Spec2Isabelle
  imports Main
begin

section \<open>Data model\<close>

text \<open>
  The four categories of \<^verbatim>\<open>type Category\<close>. On the JavaScript side they are the string
  literals \<^verbatim>\<open>'physical'\<close>, \<^verbatim>\<open>'mental'\<close>, \<^verbatim>\<open>'spiritual'\<close> and \<^verbatim>\<open>'chores'\<close>.
\<close>

datatype category = physical | mental | spiritual | chores

text \<open>
  \<^verbatim>\<open>interface Task\<close>. The fields \<^verbatim>\<open>id\<close> and \<^verbatim>\<open>text\<close> are called \<open>task_id\<close> and
  \<open>task_text\<close> here. The optional fields \<^verbatim>\<open>isNew?\<close> and \<^verbatim>\<open>isDeleting?\<close> are
  \<open>None\<close> when the property is absent from the object.

  Strings are lists of 8-bit characters: a character stands for the code unit of the same
  number, and strings with code units above 255 are outside this model.
\<close>

record task =
  task_id :: string
  task_text :: string
  completed :: bool
  category :: category
  isNew :: "bool option"
  isDeleting :: "bool option"

definition defaultTasks :: "task list" where
  "defaultTasks =
    [\<lparr>task_id = ''1'', task_text = ''Morning workout'', completed = False,
       category = physical, isNew = None, isDeleting = None\<rparr>,
     \<lparr>task_id = ''2'', task_text = ''Meditation'', completed = False,
       category = spiritual, isNew = None, isDeleting = None\<rparr>,
     \<lparr>task_id = ''3'', task_text = ''Read for 30 minutes'', completed = False,
       category = mental, isNew = None, isDeleting = None\<rparr>,
     \<lparr>task_id = ''4'', task_text = ''Make the bed'', completed = False,
       category = chores, isNew = None, isDeleting = None\<rparr>]"

section \<open>The JavaScript primitives the handlers use\<close>

subsection \<open>Truthiness of an optional boolean\<close>

text \<open>\<^verbatim>\<open>undefined\<close> and \<^verbatim>\<open>false\<close> are falsy, \<^verbatim>\<open>true\<close> is truthy.\<close>

fun truthy :: "bool option \<Rightarrow> bool" where
  "truthy None = False"
| "truthy (Some b) = b"

subsection \<open>\<^verbatim>\<open>String.prototype.trim\<close>\<close>

text \<open>
  The white space and line terminator code units below 256: TAB, LF, VT, FF, CR, SP and
  NBSP.
\<close>

definition is_space :: "char \<Rightarrow> bool" where
  "is_space c = (c = CHR 0x09 \<or> c = CHR 0x0A \<or> c = CHR 0x0B \<or> c = CHR 0x0C
     \<or> c = CHR 0x0D \<or> c = CHR 0x20 \<or> c = CHR 0xA0)"

definition trim :: "string \<Rightarrow> string" where
  "trim s = rev (dropWhile is_space (rev (dropWhile is_space s)))"

subsection \<open>\<^verbatim>\<open>Date.now().toString()\<close>\<close>

text \<open>
  The clock reading is an integer number of milliseconds; its \<^verbatim>\<open>toString()\<close> is the
  decimal numeral, with a minus sign for a reading before the epoch.
\<close>

definition digit_char :: "nat \<Rightarrow> char" where
  "digit_char d = ''0123456789'' ! d"

fun nat_toString :: "nat \<Rightarrow> string" where
  "nat_toString n =
     (if n < 10 then [digit_char n]
      else nat_toString (n div 10) @ [digit_char (n mod 10)])"

declare nat_toString.simps [simp del]

definition toString :: "int \<Rightarrow> string" where
  "toString i = (if i < 0 then CHR ''-'' # nat_toString (nat (- i))
                 else nat_toString (nat i))"

subsection \<open>\<^verbatim>\<open>Array.prototype.findIndex\<close> and \<^verbatim>\<open>Array.prototype.splice\<close>\<close>

text \<open>\<^verbatim>\<open>findIndex\<close> gives the index of the first match, and \<open>-1\<close> when there is none.\<close>

fun findIndex :: "('a \<Rightarrow> bool) \<Rightarrow> 'a list \<Rightarrow> int" where
  "findIndex P [] = -1"
| "findIndex P (x # xs) =
     (if P x then 0
      else (let i = findIndex P xs in if i < 0 then -1 else i + 1))"

text \<open>
  \<^verbatim>\<open>xs.splice(start, deleteCount, ...items)\<close>, here \<open>array_splice\<close>: a negative \<open>start\<close>
  counts from the end, and both numbers are clamped to the array. The result is the pair
  of the removed elements (the return value) and the array afterwards.
\<close>

definition array_splice :: "'a list \<Rightarrow> int \<Rightarrow> int \<Rightarrow> 'a list \<Rightarrow> 'a list \<times> 'a list" where
  "array_splice xs start deleteCount items =
     (let len = int (length xs);
          actualStart = (if start < 0 then max (len + start) 0 else min start len);
          actualDeleteCount = min (max deleteCount 0) (len - actualStart);
          a = nat actualStart;
          d = nat actualDeleteCount
      in (take d (drop a xs), take a xs @ items @ drop (a + d) xs))"

section \<open>\<^verbatim>\<open>JSON.stringify\<close> and \<^verbatim>\<open>JSON.parse\<close>\<close>

text \<open>
  The value kept under the key \<^verbatim>\<open>'tasks'\<close> is JSON text. A number is kept as the numeral
  it was written with: the tasks hold none.
\<close>

datatype json =
    JNull
  | JBool bool
  | JNum string
  | JStr string
  | JArr "json list"
  | JObj "(string \<times> json) list"

subsection \<open>Serialisation\<close>

text \<open>
  \<^verbatim>\<open>JSON.stringify\<close> with one argument: no white space, the members of an object in the
  order of its properties. In a string the quotation mark, the reverse solidus and the
  control characters are escaped, the five with a short form by it, the others as
  \<^verbatim>\<open>\u00XX\<close> in lower case.
\<close>

definition hex_digit :: "nat \<Rightarrow> char" where
  "hex_digit d = ''0123456789abcdef'' ! d"

definition quote_char :: "char \<Rightarrow> string" where
  "quote_char c =
     (if c = CHR 0x22 then [CHR 0x5C, CHR 0x22]
      else if c = CHR 0x5C then [CHR 0x5C, CHR 0x5C]
      else if c = CHR 0x08 then [CHR 0x5C, CHR ''b'']
      else if c = CHR 0x09 then [CHR 0x5C, CHR ''t'']
      else if c = CHR 0x0A then [CHR 0x5C, CHR ''n'']
      else if c = CHR 0x0C then [CHR 0x5C, CHR ''f'']
      else if c = CHR 0x0D then [CHR 0x5C, CHR ''r'']
      else if of_char c < (0x20 :: nat) then
        [CHR 0x5C, CHR ''u'', CHR ''0'', CHR ''0'',
         hex_digit (of_char c div 16), hex_digit (of_char c mod 16)]
      else [c])"

definition quote :: "string \<Rightarrow> string" where
  "quote s = CHR 0x22 # concat (map quote_char s) @ [CHR 0x22]"

fun JSON_stringify :: "json \<Rightarrow> string"
  and stringify_elements :: "json list \<Rightarrow> string"
  and stringify_members :: "(string \<times> json) list \<Rightarrow> string"
where
  "JSON_stringify JNull = ''null''"
| "JSON_stringify (JBool b) = (if b then ''true'' else ''false'')"
| "JSON_stringify (JNum n) = n"
| "JSON_stringify (JStr s) = quote s"
| "JSON_stringify (JArr vs) = CHR ''['' # stringify_elements vs @ '']''"
| "JSON_stringify (JObj kvs) = CHR ''{'' # stringify_members kvs @ ''}''"
| "stringify_elements [] = []"
| "stringify_elements [v] = JSON_stringify v"
| "stringify_elements (v # w # vs) = JSON_stringify v @ CHR '','' # stringify_elements (w # vs)"
| "stringify_members [] = []"
| "stringify_members [(k, v)] = quote k @ CHR '':'' # JSON_stringify v"
| "stringify_members ((k, v) # m # kvs) =
     quote k @ CHR '':'' # JSON_stringify v @ CHR '','' # stringify_members (m # kvs)"

subsection \<open>Parsing\<close>

text \<open>
  A parse either gives a value and the text after it, or fails. \<open>SyntaxError\<close> is the
  exception \<^verbatim>\<open>JSON.parse\<close> throws. \<open>Unmodelled\<close> marks a text this model cannot read:
  a \<^verbatim>\<open>\uXXXX\<close> escape of a code unit above 255. \<open>OutOfFuel\<close> is the recursion bound
  of \<open>parse_value\<close> running out; \<open>JSON_parse\<close> starts with enough fuel for it never to
  happen (lemma \<open>JSON_parse_fuel\<close>).
\<close>

datatype error = SyntaxError | Unmodelled | OutOfFuel

definition is_ws :: "char \<Rightarrow> bool" where
  "is_ws c = (c = CHR 0x20 \<or> c = CHR 0x09 \<or> c = CHR 0x0A \<or> c = CHR 0x0D)"

definition skip_ws :: "string \<Rightarrow> string" where
  "skip_ws s = dropWhile is_ws s"

definition hex_value :: "char \<Rightarrow> nat option" where
  "hex_value c =
     (let n = (of_char c :: nat) in
      if 48 \<le> n \<and> n \<le> 57 then Some (n - 48)
      else if 97 \<le> n \<and> n \<le> 102 then Some (n - 87)
      else if 65 \<le> n \<and> n \<le> 70 then Some (n - 55)
      else None)"

definition hex4 :: "char \<Rightarrow> char \<Rightarrow> char \<Rightarrow> char \<Rightarrow> nat option" where
  "hex4 h1 h2 h3 h4 =
     (case hex_value h1 of None \<Rightarrow> None | Some a \<Rightarrow>
      case hex_value h2 of None \<Rightarrow> None | Some b \<Rightarrow>
      case hex_value h3 of None \<Rightarrow> None | Some c \<Rightarrow>
      case hex_value h4 of None \<Rightarrow> None | Some d \<Rightarrow>
        Some (((a * 16 + b) * 16 + c) * 16 + d))"

definition unescape :: "char \<Rightarrow> char option" where
  "unescape e =
     (if e = CHR 0x22 then Some (CHR 0x22)
      else if e = CHR 0x5C then Some (CHR 0x5C)
      else if e = CHR ''/'' then Some (CHR ''/'')
      else if e = CHR ''b'' then Some (CHR 0x08)
      else if e = CHR ''f'' then Some (CHR 0x0C)
      else if e = CHR ''n'' then Some (CHR 0x0A)
      else if e = CHR ''r'' then Some (CHR 0x0D)
      else if e = CHR ''t'' then Some (CHR 0x09)
      else None)"

definition map_parsed :: "('a \<Rightarrow> 'b) \<Rightarrow> error + 'a \<times> string \<Rightarrow> error + 'b \<times> string" where
  "map_parsed f r = (case r of Inl e \<Rightarrow> Inl e | Inr (x, rest) \<Rightarrow> Inr (f x, rest))"

fun parse_chars :: "string \<Rightarrow> error + string \<times> string" where
  "parse_chars [] = Inl SyntaxError"
| "parse_chars (c # cs) =
     (if c = CHR 0x22 then Inr ([], cs)
      else if c = CHR 0x5C then
        (case cs of
           [] \<Rightarrow> Inl SyntaxError
         | e # cs' \<Rightarrow>
             if e = CHR ''u'' then
               (case cs' of
                  h1 # h2 # h3 # h4 # cs'' \<Rightarrow>
                    (case hex4 h1 h2 h3 h4 of
                       None \<Rightarrow> Inl SyntaxError
                     | Some n \<Rightarrow>
                         if n < 256 then map_parsed ((#) (char_of n)) (parse_chars cs'')
                         else Inl Unmodelled)
                | _ \<Rightarrow> Inl SyntaxError)
             else
               (case unescape e of
                  None \<Rightarrow> Inl SyntaxError
                | Some ch \<Rightarrow> map_parsed ((#) ch) (parse_chars cs')))
      else if of_char c < (0x20 :: nat) then Inl SyntaxError
      else map_parsed ((#) c) (parse_chars cs))"

text \<open>
  A number: an optional minus sign, an integer part without a leading zero, an optional
  fraction, an optional exponent. The scanners give the text after the part they read.
\<close>

definition is_digit :: "char \<Rightarrow> bool" where
  "is_digit c = (48 \<le> (of_char c :: nat) \<and> (of_char c :: nat) \<le> 57)"

definition scan_digits :: "string \<Rightarrow> string option" where
  "scan_digits s =
     (case s of
        [] \<Rightarrow> None
      | c # cs \<Rightarrow> if is_digit c then Some (dropWhile is_digit cs) else None)"

definition scan_sign :: "string \<Rightarrow> string" where
  "scan_sign s = (case s of [] \<Rightarrow> s | c # cs \<Rightarrow> if c = CHR ''-'' then cs else s)"

definition scan_int :: "string \<Rightarrow> string option" where
  "scan_int s =
     (case s of
        [] \<Rightarrow> None
      | c # cs \<Rightarrow> if c = CHR ''0'' then Some cs else scan_digits s)"

definition scan_frac :: "string \<Rightarrow> string option" where
  "scan_frac s =
     (case s of
        [] \<Rightarrow> Some s
      | c # cs \<Rightarrow> if c = CHR ''.'' then scan_digits cs else Some s)"

definition scan_exp :: "string \<Rightarrow> string option" where
  "scan_exp s =
     (case s of
        [] \<Rightarrow> Some s
      | c # cs \<Rightarrow>
          if c = CHR ''e'' \<or> c = CHR ''E'' then
            (case cs of
               [] \<Rightarrow> None
             | g # gs \<Rightarrow> if g = CHR ''+'' \<or> g = CHR ''-'' then scan_digits gs else scan_digits cs)
          else Some s)"

definition parse_number :: "string \<Rightarrow> error + json \<times> string" where
  "parse_number s =
     (case Option.bind (Option.bind (scan_int (scan_sign s)) scan_frac) scan_exp of
        None \<Rightarrow> Inl SyntaxError
      | Some r \<Rightarrow> Inr (JNum (take (length s - length r) s), r))"

definition parse_literal :: "string \<Rightarrow> error + json \<times> string" where
  "parse_literal s =
     (if take 4 s = ''true'' then Inr (JBool True, drop 4 s)
      else if take 5 s = ''false'' then Inr (JBool False, drop 5 s)
      else if take 4 s = ''null'' then Inr (JNull, drop 4 s)
      else parse_number s)"

text \<open>
  The recursive descent. \<open>parse_elements\<close> reads the elements of an array that is not
  empty, up to and including the closing bracket; \<open>parse_members\<close> does the same for an
  object.
\<close>

fun parse_value :: "nat \<Rightarrow> string \<Rightarrow> error + json \<times> string"
  and parse_elements :: "nat \<Rightarrow> string \<Rightarrow> error + json list \<times> string"
  and parse_members :: "nat \<Rightarrow> string \<Rightarrow> error + (string \<times> json) list \<times> string"
where
  "parse_value 0 s = Inl OutOfFuel"
| "parse_value (Suc n) s =
     (case skip_ws s of
        [] \<Rightarrow> Inl SyntaxError
      | c # cs \<Rightarrow>
          if c = CHR 0x22 then map_parsed JStr (parse_chars cs)
          else if c = CHR ''['' then
            (case skip_ws cs of
               [] \<Rightarrow> Inl SyntaxError
             | d # ds \<Rightarrow>
                 if d = CHR '']'' then Inr (JArr [], ds)
                 else map_parsed JArr (parse_elements n cs))
          else if c = CHR ''{'' then
            (case skip_ws cs of
               [] \<Rightarrow> Inl SyntaxError
             | d # ds \<Rightarrow>
                 if d = CHR ''}'' then Inr (JObj [], ds)
                 else map_parsed JObj (parse_members n cs))
          else parse_literal (c # cs))"
| "parse_elements 0 s = Inl OutOfFuel"
| "parse_elements (Suc n) s =
     (case parse_value n s of
        Inl e \<Rightarrow> Inl e
      | Inr (v, r) \<Rightarrow>
          (case skip_ws r of
             [] \<Rightarrow> Inl SyntaxError
           | c # cs \<Rightarrow>
               if c = CHR '','' then map_parsed ((#) v) (parse_elements n cs)
               else if c = CHR '']'' then Inr ([v], cs)
               else Inl SyntaxError))"
| "parse_members 0 s = Inl OutOfFuel"
| "parse_members (Suc n) s =
     (case skip_ws s of
        [] \<Rightarrow> Inl SyntaxError
      | q # cs \<Rightarrow>
          if q = CHR 0x22 then
            (case parse_chars cs of
               Inl e \<Rightarrow> Inl e
             | Inr (k, r) \<Rightarrow>
                 (case skip_ws r of
                    [] \<Rightarrow> Inl SyntaxError
                  | col # r' \<Rightarrow>
                      if col = CHR '':'' then
                        (case parse_value n r' of
                           Inl e \<Rightarrow> Inl e
                         | Inr (v, r'') \<Rightarrow>
                             (case skip_ws r'' of
                                [] \<Rightarrow> Inl SyntaxError
                              | d # ds \<Rightarrow>
                                  if d = CHR '','' then
                                    map_parsed ((#) (k, v)) (parse_members n ds)
                                  else if d = CHR ''}'' then Inr ([(k, v)], ds)
                                  else Inl SyntaxError))
                      else Inl SyntaxError))
          else Inl SyntaxError)"

text \<open>The whole text has to be one value, with white space around it at most.\<close>

definition JSON_parse :: "string \<Rightarrow> error + json" where
  "JSON_parse s =
     (case parse_value (2 * length s + 1) s of
        Inl e \<Rightarrow> Inl e
      | Inr (v, r) \<Rightarrow> if skip_ws r = [] then Inr v else Inl SyntaxError)"

section \<open>Tasks as JSON values\<close>

text \<open>
  The object \<^verbatim>\<open>JSON.stringify\<close> sees for a task: the four fields every task has, then
  \<^verbatim>\<open>isNew\<close> and \<^verbatim>\<open>isDeleting\<close> when the task has them. \<^verbatim>\<open>addTask\<close> creates a task with
  its properties in this order and \<^verbatim>\<open>deleteTask\<close> adds \<^verbatim>\<open>isDeleting\<close> at the end; the order
  of the properties of an object that was loaded with another order is not tracked.
\<close>

definition category_string :: "category \<Rightarrow> string" where
  "category_string c =
     (case c of physical \<Rightarrow> ''physical'' | mental \<Rightarrow> ''mental''
      | spiritual \<Rightarrow> ''spiritual'' | chores \<Rightarrow> ''chores'')"

definition flag_member :: "string \<Rightarrow> bool option \<Rightarrow> (string \<times> json) list" where
  "flag_member k flag = (case flag of None \<Rightarrow> [] | Some b \<Rightarrow> [(k, JBool b)])"

definition task_to_json :: "task \<Rightarrow> json" where
  "task_to_json t =
     JObj ([(''id'', JStr (task_id t)),
            (''text'', JStr (task_text t)),
            (''completed'', JBool (completed t)),
            (''category'', JStr (category_string (category t)))]
           @ flag_member ''isNew'' (isNew t)
           @ flag_member ''isDeleting'' (isDeleting t))"

definition tasks_to_json :: "task list \<Rightarrow> json" where
  "tasks_to_json ts = JArr (map task_to_json ts)"

text \<open>
  The other direction: the parsed value read as a \<^verbatim>\<open>Task[]\<close>. \<^verbatim>\<open>JSON.parse\<close> keeps the
  last of several members with one key. The source does not check the value it parses; a
  value that is not an array of objects of the shape of \<^verbatim>\<open>Task\<close> has no counterpart in
  this model, and reading it gives \<open>None\<close>.
\<close>

definition get_prop :: "(string \<times> json) list \<Rightarrow> string \<Rightarrow> json option" where
  "get_prop kvs k = map_of (rev kvs) k"

fun as_string :: "json option \<Rightarrow> string option" where
  "as_string (Some (JStr s)) = Some s"
| "as_string _ = None"

fun as_bool :: "json option \<Rightarrow> bool option" where
  "as_bool (Some (JBool b)) = Some b"
| "as_bool _ = None"

fun as_flag :: "json option \<Rightarrow> bool option option" where
  "as_flag None = Some None"
| "as_flag (Some (JBool b)) = Some (Some b)"
| "as_flag _ = None"

definition category_of_string :: "string \<Rightarrow> category option" where
  "category_of_string s =
     (if s = ''physical'' then Some physical
      else if s = ''mental'' then Some mental
      else if s = ''spiritual'' then Some spiritual
      else if s = ''chores'' then Some chores
      else None)"

definition task_keys :: "string list" where
  "task_keys = [''id'', ''text'', ''completed'', ''category'', ''isNew'', ''isDeleting'']"

definition json_to_task :: "json \<Rightarrow> task option" where
  "json_to_task j =
     (case j of
        JObj kvs \<Rightarrow>
          (case as_string (get_prop kvs ''id'') of None \<Rightarrow> None | Some i \<Rightarrow>
           case as_string (get_prop kvs ''text'') of None \<Rightarrow> None | Some t \<Rightarrow>
           case as_bool (get_prop kvs ''completed'') of None \<Rightarrow> None | Some c \<Rightarrow>
           case Option.bind (as_string (get_prop kvs ''category'')) category_of_string of
             None \<Rightarrow> None | Some cat \<Rightarrow>
           case as_flag (get_prop kvs ''isNew'') of None \<Rightarrow> None | Some n \<Rightarrow>
           case as_flag (get_prop kvs ''isDeleting'') of None \<Rightarrow> None | Some d \<Rightarrow>
             if list_all (\<lambda>kv. fst kv \<in> set task_keys) kvs then
               Some \<lparr>task_id = i, task_text = t, completed = c, category = cat,
                     isNew = n, isDeleting = d\<rparr>
             else None)
      | _ \<Rightarrow> None)"

definition json_to_tasks :: "json \<Rightarrow> task list option" where
  "json_to_tasks j = (case j of JArr vs \<Rightarrow> those (map json_to_task vs) | _ \<Rightarrow> None)"

section \<open>The handlers of \<^verbatim>\<open>App\<close>, as functions on the task list\<close>

text \<open>
  \<^verbatim>\<open>addTask\<close>: \<open>newTask\<close> and \<open>selectedCategory\<close> are the two pieces of form state it
  reads, \<open>now\<close> is the value of \<^verbatim>\<open>Date.now()\<close>. When the trimmed text is empty the handler
  does not call \<^verbatim>\<open>setTasks\<close>.
\<close>

definition addTask :: "string \<Rightarrow> category \<Rightarrow> int \<Rightarrow> task list \<Rightarrow> task list" where
  "addTask newTask selectedCategory now tasks =
     (if trim newTask \<noteq> [] then
        tasks @ [\<lparr>task_id = toString now, task_text = newTask, completed = False,
                  category = selectedCategory, isNew = Some True, isDeleting = None\<rparr>]
      else tasks)"

text \<open>The callback \<^verbatim>\<open>addTask\<close> schedules: it sets \<^verbatim>\<open>isNew: false\<close> on the task created.\<close>

definition addTask_timeout :: "string \<Rightarrow> task list \<Rightarrow> task list" where
  "addTask_timeout taskId current =
     map (\<lambda>t. if task_id t = taskId then t\<lparr>isNew := Some False\<rparr> else t) current"

definition toggleTask :: "string \<Rightarrow> task list \<Rightarrow> task list" where
  "toggleTask taskId tasks =
     map (\<lambda>task. if task_id task = taskId then task\<lparr>completed := \<not> completed task\<rparr>
                  else task) tasks"

text \<open>\<^verbatim>\<open>deleteTask\<close>: the immediate update, and the callback it schedules.\<close>

definition deleteTask :: "string \<Rightarrow> task list \<Rightarrow> task list" where
  "deleteTask taskId current =
     map (\<lambda>task. if task_id task = taskId then task\<lparr>isDeleting := Some True\<rparr>
                  else task) current"

definition deleteTask_timeout :: "string \<Rightarrow> task list \<Rightarrow> task list" where
  "deleteTask_timeout taskId current = filter (\<lambda>task. task_id task \<noteq> taskId) current"

text \<open>
  \<^verbatim>\<open>handleDragEnd\<close>: \<open>active\<close> is \<^verbatim>\<open>active.id\<close>, \<open>over\<close> is \<^verbatim>\<open>over?.id\<close> (\<open>None\<close> when
  \<^verbatim>\<open>over\<close> is null). The destructuring \<^verbatim>\<open>const [movedItem] = newItems.splice(oldIndex, 1)\<close>
  gives \<^verbatim>\<open>undefined\<close> when nothing was removed, which happens only on the empty array; the
  array returned then holds \<^verbatim>\<open>undefined\<close> and is not a list of tasks: the result is
  \<open>None\<close>.
\<close>

definition handleDragEnd :: "string \<Rightarrow> string option \<Rightarrow> task list \<Rightarrow> task list option" where
  "handleDragEnd active over items =
     (case over of
        None \<Rightarrow> Some items
      | Some over_id \<Rightarrow>
          if active \<noteq> over_id then
            (let oldIndex = findIndex (\<lambda>item. task_id item = active) items;
                 newIndex = findIndex (\<lambda>item. task_id item = over_id) items;
                 (removed, newItems) = array_splice items oldIndex 1 []
             in case removed of
                  [] \<Rightarrow> None
                | movedItem # _ \<Rightarrow> Some (snd (array_splice newItems newIndex 0 [movedItem])))
          else Some items)"

section \<open>The component: state, effect and events\<close>

text \<open>
  The part of the component the effect works on: the state React holds for \<^verbatim>\<open>tasks\<close>, the
  storage (a map from keys to values) and the callbacks given to \<^verbatim>\<open>setTimeout\<close> that have
  not run yet.
\<close>

datatype timer = ClearIsNew string | RemoveTask string

record app =
  app_tasks :: "task list"
  localStorage :: "string \<rightharpoonup> string"
  timers :: "timer list"

text \<open>
  The effect with the dependency \<^verbatim>\<open>[tasks]\<close>:
  \<^verbatim>\<open>localStorage.setItem('tasks', JSON.stringify(tasks.filter(task => !task.isDeleting)))\<close>.
  It runs after the first render, and after a render in which \<^verbatim>\<open>tasks\<close> is a new array.
\<close>

definition persist :: "'a app_scheme \<Rightarrow> 'a app_scheme" where
  "persist st =
     st\<lparr>localStorage := (localStorage st)
       (''tasks'' \<mapsto>
          JSON_stringify (tasks_to_json (filter (\<lambda>task. \<not> truthy (isDeleting task)) (app_tasks st))))\<rparr>"

text \<open>
  The handlers are closures of a render. \<^verbatim>\<open>addTask\<close> and \<^verbatim>\<open>toggleTask\<close> call
  \<^verbatim>\<open>setTasks\<close> with a list built from the \<^verbatim>\<open>tasks\<close> of the render they belong to
  (\<^verbatim>\<open>setTasks([...tasks, task])\<close>, \<^verbatim>\<open>setTasks(tasks.map(...))\<close>), while \<^verbatim>\<open>deleteTask\<close>,
  \<^verbatim>\<open>handleDragEnd\<close> and the two timer callbacks pass a function of the current state
  (\<^verbatim>\<open>setTasks(current => ...)\<close>). So the component also has \<open>rendered\<close>, the \<^verbatim>\<open>tasks\<close> of
  the last render, and \<open>dirty\<close>, which says that \<^verbatim>\<open>setTasks\<close> was called since. React
  applies the updates in the order of the calls, a list replacing the state and a function
  being applied to it: \<open>app_tasks\<close> is the state with every update so far applied.
\<close>

record component = app +
  rendered :: "task list"
  dirty :: bool

definition setTasks :: "task list \<Rightarrow> component \<Rightarrow> component" where
  "setTasks ts st = st\<lparr>app_tasks := ts, dirty := True\<rparr>"

text \<open>
  A render takes the state as its \<^verbatim>\<open>tasks\<close>; the effect runs after it when \<^verbatim>\<open>setTasks\<close> was
  called since the render before.
\<close>

definition render :: "component \<Rightarrow> component" where
  "render st =
     (let st' = st\<lparr>rendered := app_tasks st, dirty := False\<rparr>
      in if dirty st then persist st' else st')"

text \<open>
  The initialiser of the state:
  \<^verbatim>\<open>savedTasks ? JSON.parse(savedTasks) : defaultTasks\<close>. A missing key and the empty
  string are falsy. Nothing catches what \<^verbatim>\<open>JSON.parse\<close> throws: the initialiser throws
  it, during the first render. \<open>IllTyped\<close> is a parsed value that is not a list of tasks.
\<close>

datatype 'a outcome = Ok 'a | Throws error | IllTyped json

definition initialTasks :: "(string \<rightharpoonup> string) \<Rightarrow> task list outcome" where
  "initialTasks storage =
     (case storage ''tasks'' of
        None \<Rightarrow> Ok defaultTasks
      | Some savedTasks \<Rightarrow>
          if savedTasks = [] then Ok defaultTasks
          else
            (case JSON_parse savedTasks of
               Inl e \<Rightarrow> Throws e
             | Inr j \<Rightarrow> (case json_to_tasks j of None \<Rightarrow> IllTyped j | Some ts \<Rightarrow> Ok ts)))"

text \<open>The first render, with the effect after it.\<close>

definition mount :: "(string \<rightharpoonup> string) \<Rightarrow> component outcome" where
  "mount storage =
     (case initialTasks storage of
        Ok ts \<Rightarrow>
          Ok (persist \<lparr>app_tasks = ts, localStorage = storage, timers = [],
                       rendered = ts, dirty = False\<rparr>)
      | Throws e \<Rightarrow> Throws e
      | IllTyped j \<Rightarrow> IllTyped j)"

text \<open>
  The events: the form is submitted, a completion button is clicked, a deletion is
  confirmed, a drag ends, a pending timer fires, the component renders again. They are
  handled one at a time; when a render comes between two of the others is left open. A
  handler that does not call \<^verbatim>\<open>setTasks\<close> leaves the state as it is. \<open>None\<close>: the timer is
  not pending, or the drag leaves \<^verbatim>\<open>undefined\<close> in the array.
\<close>

datatype event =
    Submit string category int
  | ToggleClick string
  | DeleteConfirm string
  | DragEnd string "string option"
  | Timeout timer
  | Render

fun run_timer :: "timer \<Rightarrow> task list \<Rightarrow> task list" where
  "run_timer (ClearIsNew taskId) current = addTask_timeout taskId current"
| "run_timer (RemoveTask taskId) current = deleteTask_timeout taskId current"

fun step :: "event \<Rightarrow> component \<Rightarrow> component option" where
  "step (Submit newTask selectedCategory now) st =
     (if trim newTask \<noteq> [] then
        Some ((setTasks (addTask newTask selectedCategory now (rendered st)) st)
               \<lparr>timers := timers st @ [ClearIsNew (toString now)]\<rparr>)
      else Some st)"
| "step (ToggleClick taskId) st = Some (setTasks (toggleTask taskId (rendered st)) st)"
| "step (DeleteConfirm taskId) st =
     Some ((setTasks (deleteTask taskId (app_tasks st)) st)
            \<lparr>timers := timers st @ [RemoveTask taskId]\<rparr>)"
| "step (DragEnd active over) st =
     (if over \<noteq> None \<and> Some active \<noteq> over then
        (case handleDragEnd active over (app_tasks st) of
           None \<Rightarrow> None
         | Some newItems \<Rightarrow> Some (setTasks newItems st))
      else Some st)"
| "step (Timeout t) st =
     (if t \<in> set (timers st) then
        Some (setTasks (run_timer t (app_tasks st)) (st\<lparr>timers := remove1 t (timers st)\<rparr>))
      else None)"
| "step Render st = Some (render st)"

fun run :: "event list \<Rightarrow> component \<Rightarrow> component option" where
  "run [] st = Some st"
| "run (e # es) st = (case step e st of None \<Rightarrow> None | Some st' \<Rightarrow> run es st')"

section \<open>Definitions for the statements and proofs\<close>

text \<open>
  The reordering as the specification words it: take the element at index \<open>i\<close> out, and
  put it back so that it sits at index \<open>j\<close>.
\<close>

definition remove_at :: "nat \<Rightarrow> 'a list \<Rightarrow> 'a list" where
  "remove_at i xs = take i xs @ drop (Suc i) xs"

definition insert_at :: "nat \<Rightarrow> 'a \<Rightarrow> 'a list \<Rightarrow> 'a list" where
  "insert_at j x xs = take j xs @ x # drop j xs"

definition reorder_spec :: "nat \<Rightarrow> nat \<Rightarrow> 'a list \<Rightarrow> 'a list" where
  "reorder_spec i j xs = insert_at j (xs ! i) (remove_at i xs)"

text \<open>
  Three tasks of which two have one id, as two submissions within one millisecond leave
  them (lemma \<open>same_ms_tasks_reachable\<close>).
\<close>

definition same_ms_tasks :: "task list" where
  "same_ms_tasks =
    [\<lparr>task_id = ''5'', task_text = ''A'', completed = False,
       category = physical, isNew = Some True, isDeleting = None\<rparr>,
     \<lparr>task_id = ''5'', task_text = ''B'', completed = False,
       category = physical, isNew = Some True, isDeleting = None\<rparr>,
     \<lparr>task_id = ''6'', task_text = ''C'', completed = False,
       category = physical, isNew = Some True, isDeleting = None\<rparr>]"

text \<open>The number a decimal numeral stands for.\<close>

definition digits_value :: "string \<Rightarrow> nat" where
  "digits_value s = foldl (\<lambda>acc c. 10 * acc + (of_char c - 48)) 0 s"

text \<open>A run of submissions, each with its text, category and clock reading.\<close>

definition new_task :: "string \<times> category \<times> int \<Rightarrow> task" where
  "new_task submit =
     (case submit of (newTask, selectedCategory, now) \<Rightarrow>
        \<lparr>task_id = toString now, task_text = newTask, completed = False,
         category = selectedCategory, isNew = Some True, isDeleting = None\<rparr>)"

definition addTasks :: "(string \<times> category \<times> int) list \<Rightarrow> task list \<Rightarrow> task list" where
  "addTasks submits tasks =
     fold (\<lambda>(newTask, selectedCategory, now). addTask newTask selectedCategory now) submits tasks"

text \<open>Values without numbers, and fuel that is enough to parse the text of a value.\<close>

fun number_free :: "json \<Rightarrow> bool"
  and number_free_elements :: "json list \<Rightarrow> bool"
  and number_free_members :: "(string \<times> json) list \<Rightarrow> bool"
where
  "number_free (JNum n) = False"
| "number_free (JArr vs) = number_free_elements vs"
| "number_free (JObj kvs) = number_free_members kvs"
| "number_free _ = True"
| "number_free_elements [] = True"
| "number_free_elements (v # vs) = (number_free v \<and> number_free_elements vs)"
| "number_free_members [] = True"
| "number_free_members ((k, v) # kvs) = (number_free v \<and> number_free_members kvs)"

fun parse_fuel :: "json \<Rightarrow> nat"
  and parse_fuel_elements :: "json list \<Rightarrow> nat"
  and parse_fuel_members :: "(string \<times> json) list \<Rightarrow> nat"
where
  "parse_fuel (JArr vs) = Suc (parse_fuel_elements vs)"
| "parse_fuel (JObj kvs) = Suc (parse_fuel_members kvs)"
| "parse_fuel _ = 1"
| "parse_fuel_elements [] = 0"
| "parse_fuel_elements (v # vs) = Suc (parse_fuel v + parse_fuel_elements vs)"
| "parse_fuel_members [] = 0"
| "parse_fuel_members ((k, v) # kvs) = Suc (parse_fuel v + parse_fuel_members kvs)"

text \<open>The state in which the storage holds what the effect wrote for the tasks in memory.\<close>

definition in_sync :: "'a app_scheme \<Rightarrow> bool" where
  "in_sync st =
     (localStorage st ''tasks'' =
        Some (JSON_stringify
          (tasks_to_json (filter (\<lambda>task. \<not> truthy (isDeleting task)) (app_tasks st)))))"

text \<open>
  The state in which the storage holds what the effect wrote for the tasks of the last
  render, and the state is those tasks unless \<^verbatim>\<open>setTasks\<close> was called since.
\<close>

definition saved_rendered :: "component \<Rightarrow> bool" where
  "saved_rendered st =
     (localStorage st ''tasks'' =
        Some (JSON_stringify
          (tasks_to_json (filter (\<lambda>task. \<not> truthy (isDeleting task)) (rendered st)))) \<and>
      (dirty st \<or> app_tasks st = rendered st))"

text \<open>The component after its first render on a storage without the key.\<close>

definition mounted_defaults :: component where
  "mounted_defaults =
     persist \<lparr>app_tasks = defaultTasks, localStorage = Map.empty, timers = [],
              rendered = defaultTasks, dirty = False\<rparr>"

section \<open>Properties\<close>

subsection \<open>Toggling\<close>

text \<open>
  C6. \<^verbatim>\<open>toggleTask\<close> applied twice with the same id gives back the task list it started
  from, whatever the list and the id.
\<close>

theorem toggleTask_involution: "toggleTask taskId (toggleTask taskId tasks) = tasks"
  by (induction tasks) (simp_all add: toggleTask_def)

theorem toggleTask_involution_witness:
  "toggleTask ''2'' (toggleTask ''2'' defaultTasks) = defaultTasks"
  by (rule toggleTask_involution)

text \<open>The end-to-end scenario: toggling ``Meditation'' completes it, toggling again undoes it.\<close>

lemma toggle_meditation:
  "map completed (toggleTask ''2'' defaultTasks) = [False, True, False, False]"
  by (simp add: toggleTask_def defaultTasks_def)

subsection \<open>Creating\<close>

lemma dropWhile_all_iff: "(\<forall>c\<in>set (dropWhile P s). P c) \<longleftrightarrow> dropWhile P s = []"
proof (cases "dropWhile P s")
  case Nil
  show ?thesis unfolding Nil by simp
next
  case (Cons a list)
  then have "\<not> P a" using hd_dropWhile [of P s] by simp
  with Cons show ?thesis by auto
qed

text \<open>The trimmed text is empty exactly when the text is white space only.\<close>

lemma trim_empty_iff: "trim s = [] \<longleftrightarrow> (\<forall>c\<in>set s. is_space c)"
  unfolding trim_def by (simp add: dropWhile_eq_Nil_conv dropWhile_all_iff)

lemma lt10: "d < 10 \<Longrightarrow> d \<in> {0, 1, 2, 3, 4, 5, 6, 7, 8, 9::nat}"
  by auto

lemma of_char_digit_char: "d < 10 \<Longrightarrow> of_char (digit_char d) = 48 + d"
  by (drule lt10) (auto simp: digit_char_def)

lemma digits_value_nat_toString: "digits_value (nat_toString n) = n"
proof (induction n rule: nat_toString.induct)
  case (1 n)
  show ?case
  proof (cases "n < 10")
    case True
    then show ?thesis
      by (subst nat_toString.simps) (simp add: digits_value_def of_char_digit_char)
  next
    case False
    with 1 have "digits_value (nat_toString (n div 10)) = n div 10" by simp
    with False show ?thesis
      by (subst nat_toString.simps) (simp add: digits_value_def of_char_digit_char)
  qed
qed

lemma nat_toString_inj: "nat_toString m = nat_toString n \<Longrightarrow> m = n"
  by (metis digits_value_nat_toString)

lemma hd_nat_toString: "nat_toString n \<noteq> [] \<and> hd (nat_toString n) \<noteq> CHR ''-''"
proof (induction n rule: nat_toString.induct)
  case (1 n)
  show ?case
  proof (cases "n < 10")
    case True
    have "of_char (digit_char n) \<noteq> (of_char CHR ''-'' :: nat)"
      using True by (simp add: of_char_digit_char)
    then have "digit_char n \<noteq> CHR ''-''" by auto
    with True show ?thesis
      by (subst (1 2) nat_toString.simps) simp
  next
    case False
    with 1 show ?thesis
      by (subst (1 2) nat_toString.simps) simp
  qed
qed

text \<open>Different clock readings give different ids.\<close>

lemma toString_inj: "toString i = toString j \<Longrightarrow> i = j"
proof -
  assume eq: "toString i = toString j"
  have neg: "\<And>a b. a < 0 \<Longrightarrow> \<not> b < 0 \<Longrightarrow> toString a \<noteq> toString b"
  proof
    fix a b :: int
    assume "a < 0" "\<not> b < 0" "toString a = toString b"
    then have "CHR ''-'' # nat_toString (nat (- a)) = nat_toString (nat b)"
      by (simp add: toString_def)
    then have "hd (nat_toString (nat b)) = CHR ''-''"
      by (metis list.sel(1))
    then show False using hd_nat_toString by blast
  qed
  show "i = j"
  proof (cases "i < 0"; cases "j < 0")
    assume "i < 0" "j < 0"
    with eq have "nat (- i) = nat (- j)"
      by (auto simp: toString_def dest: nat_toString_inj)
    with \<open>i < 0\<close> \<open>j < 0\<close> show ?thesis by simp
  next
    assume "i < 0" "\<not> j < 0"
    with neg eq show ?thesis by blast
  next
    assume "\<not> i < 0" "j < 0"
    with neg [of j i] eq show ?thesis by simp
  next
    assume "\<not> i < 0" "\<not> j < 0"
    with eq have "nat i = nat j"
      by (auto simp: toString_def dest: nat_toString_inj)
    with \<open>\<not> i < 0\<close> \<open>\<not> j < 0\<close> show ?thesis by simp
  qed
qed

text \<open>
  C8, as amended. With a text that is empty after trimming, \<^verbatim>\<open>addTask\<close> leaves the task
  list as it is. With any other text the list afterwards is the list before with one task
  appended: its id is the decimal numeral of the clock reading, \<open>completed\<close> is false, the
  category is the selected one and \<open>isNew\<close> is true. That id is the id of a task already in
  the list exactly when the numeral of the reading is; it is a new id whenever every id in
  the list is the numeral of another clock reading.
\<close>

theorem addTask_appends:
  "(trim newTask = [] \<longrightarrow> addTask newTask selectedCategory now tasks = tasks) \<and>
   (trim newTask \<noteq> [] \<longrightarrow>
      addTask newTask selectedCategory now tasks =
        tasks @ [\<lparr>task_id = toString now, task_text = newTask, completed = False,
                  category = selectedCategory, isNew = Some True, isDeleting = None\<rparr>] \<and>
      (task_id (last (addTask newTask selectedCategory now tasks)) \<in> task_id ` set tasks \<longleftrightarrow>
         toString now \<in> task_id ` set tasks) \<and>
      ((\<forall>t \<in> set tasks. \<exists>n. n \<noteq> now \<and> task_id t = toString n) \<longrightarrow>
         task_id (last (addTask newTask selectedCategory now tasks)) \<notin> task_id ` set tasks))"
proof -
  have "toString now \<notin> task_id ` set tasks"
    if "\<forall>t \<in> set tasks. \<exists>n. n \<noteq> now \<and> task_id t = toString n"
  proof
    assume "toString now \<in> task_id ` set tasks"
    then obtain t where "t \<in> set tasks" "task_id t = toString now" by auto
    with that obtain n where "n \<noteq> now" "toString n = toString now" by metis
    then show False by (auto dest: toString_inj)
  qed
  then show ?thesis
    by (auto simp: addTask_def)
qed

theorem addTask_appends_witness:
  "trim [CHR 0x20, CHR 0x09] = [] \<and>
   addTask [CHR 0x20, CHR 0x09] mental 1700000000000 defaultTasks = defaultTasks \<and>
   trim ''Stretch'' \<noteq> [] \<and>
   map task_id defaultTasks = [toString 1, toString 2, toString 3, toString 4] \<and>
   addTask ''Stretch'' physical 1700000000000 defaultTasks =
     defaultTasks @ [\<lparr>task_id = ''1700000000000'', task_text = ''Stretch'', completed = False,
                      category = physical, isNew = Some True, isDeleting = None\<rparr>] \<and>
   task_id (last (addTask ''Stretch'' physical 1700000000000 defaultTasks))
     \<notin> task_id ` set defaultTasks"
proof -
  have blank: "trim [CHR 0x20, CHR 0x09] = []"
    by (simp add: trim_def is_space_def)
  have nonblank: "trim ''Stretch'' \<noteq> []"
    by (simp add: trim_def is_space_def)
  have numeral: "toString 1700000000000 = ''1700000000000''"
    by (simp add: toString_def nat_toString.simps digit_char_def)
  have ids: "map task_id defaultTasks = [toString 1, toString 2, toString 3, toString 4]"
    by (simp add: defaultTasks_def toString_def nat_toString.simps digit_char_def)
  have "\<exists>n. n \<noteq> (1700000000000 :: int) \<and> task_id t = toString n" if "t \<in> set defaultTasks" for t
  proof -
    from that have "task_id t \<in> set (map task_id defaultTasks)" by simp
    then have "task_id t \<in> {toString 1, toString 2, toString 3, toString 4}"
      unfolding ids by simp
    then consider "task_id t = toString 1" | "task_id t = toString 2"
      | "task_id t = toString 3" | "task_id t = toString 4" by blast
    then show ?thesis
    proof cases
      case 1
      then show ?thesis by (intro exI [of _ 1]) simp
    next
      case 2
      then show ?thesis by (intro exI [of _ 2]) simp
    next
      case 3
      then show ?thesis by (intro exI [of _ 3]) simp
    next
      case 4
      then show ?thesis by (intro exI [of _ 4]) simp
    qed
  qed
  then have others: "\<forall>t \<in> set defaultTasks. \<exists>n. n \<noteq> (1700000000000 :: int) \<and> task_id t = toString n"
    by blast
  from addTask_appends [of "''Stretch''" physical 1700000000000 defaultTasks] nonblank others
  have fresh: "task_id (last (addTask ''Stretch'' physical 1700000000000 defaultTasks))
      \<notin> task_id ` set defaultTasks"
    and appended: "addTask ''Stretch'' physical 1700000000000 defaultTasks =
        defaultTasks @ [\<lparr>task_id = toString 1700000000000, task_text = ''Stretch'',
          completed = False, category = physical, isNew = Some True, isDeleting = None\<rparr>]"
    by blast+
  from addTask_appends [of "[CHR 0x20, CHR 0x09]" mental 1700000000000 defaultTasks] blank
  have unchanged: "addTask [CHR 0x20, CHR 0x09] mental 1700000000000 defaultTasks = defaultTasks"
    by blast
  from blank nonblank ids fresh unchanged appended [unfolded numeral] show ?thesis
    by (intro conjI)
qed

text \<open>
  C8 as stated, with an id freshly generated at every creation, fails for the second of two
  submissions at one clock reading: its id is the id of the task the first one appended.
\<close>

theorem addTask_id_in_use_counterexample:
  "trim ''A'' \<noteq> [] \<and> trim ''B'' \<noteq> [] \<and>
   task_id (last (addTask ''B'' mental 1700000000000
       (addTask ''A'' physical 1700000000000 defaultTasks)))
     \<in> task_id ` set (addTask ''A'' physical 1700000000000 defaultTasks)"
  by (simp add: addTask_def trim_def is_space_def)

text \<open>
  C10. The text stored in the new task is the text as submitted, with the white space
  around it: trimming is used for the test only.
\<close>

theorem addTask_keeps_raw_text:
  "trim newTask \<noteq> [] \<Longrightarrow>
     task_text (last (addTask newTask selectedCategory now tasks)) = newTask"
  by (simp add: addTask_def)

theorem addTask_keeps_raw_text_witness:
  "trim ''  Stretch '' \<noteq> [] \<and> trim ''  Stretch '' \<noteq> ''  Stretch '' \<and>
   task_text (last (addTask ''  Stretch '' physical 5 defaultTasks)) = ''  Stretch ''"
proof -
  have "trim ''  Stretch '' = ''Stretch''"
    by (simp add: trim_def is_space_def)
  with addTask_keeps_raw_text [of "''  Stretch ''" physical 5 defaultTasks]
  show ?thesis by simp
qed

subsection \<open>An id that matches no task\<close>

text \<open>
  C9. With an id that no task of the list has, \<^verbatim>\<open>toggleTask\<close> gives the list back
  unchanged, and so do \<^verbatim>\<open>deleteTask\<close> and the removal it schedules.
\<close>

theorem unknown_id_noop:
  "taskId \<notin> task_id ` set tasks \<Longrightarrow>
     toggleTask taskId tasks = tasks \<and>
     deleteTask taskId tasks = tasks \<and>
     deleteTask_timeout taskId (deleteTask taskId tasks) = tasks"
  by (induction tasks) (auto simp: toggleTask_def deleteTask_def deleteTask_timeout_def)

theorem unknown_id_noop_witness:
  "''9'' \<notin> task_id ` set defaultTasks \<and>
   toggleTask ''9'' defaultTasks = defaultTasks \<and>
   deleteTask ''9'' defaultTasks = defaultTasks \<and>
   deleteTask_timeout ''9'' (deleteTask ''9'' defaultTasks) = defaultTasks"
proof -
  have "''9'' \<notin> task_id ` set defaultTasks"
    by (simp add: defaultTasks_def)
  with unknown_id_noop [of "''9''" defaultTasks] show ?thesis by blast
qed

subsection \<open>Reordering\<close>

lemma findIndex_missing: "\<forall>x\<in>set xs. \<not> P x \<Longrightarrow> findIndex P xs = -1"
  by (induction xs) (simp_all add: Let_def)

lemma findIndex_found:
  "\<exists>x\<in>set xs. P x \<Longrightarrow>
     0 \<le> findIndex P xs \<and> findIndex P xs < int (length xs) \<and> P (xs ! nat (findIndex P xs))
     \<and> (\<forall>k < nat (findIndex P xs). \<not> P (xs ! k))"
proof (induction xs)
  case Nil
  then show ?case by simp
next
  case (Cons x xs)
  show ?case
  proof (cases "P x")
    case True
    then show ?thesis by simp
  next
    case False
    with Cons.prems have ex: "\<exists>x\<in>set xs. P x" by simp
    note ih = Cons.IH [OF ex]
    from ih False show ?thesis
      by (auto simp: Let_def nat_add_distrib nth_Cons split: nat.splits)
  qed
qed

lemma findIndex_first:
  "i < length xs \<Longrightarrow> P (xs ! i) \<Longrightarrow> \<forall>k<i. \<not> P (xs ! k) \<Longrightarrow> findIndex P xs = int i"
proof (induction xs arbitrary: i)
  case Nil
  then show ?case by simp
next
  case (Cons x xs)
  show ?case
  proof (cases i)
    case 0
    with Cons.prems show ?thesis by simp
  next
    case (Suc i')
    with Cons.prems have "\<not> P x" by auto
    moreover from Suc Cons.prems have "findIndex P xs = int i'"
      by (intro Cons.IH) auto
    ultimately show ?thesis using Suc by (simp add: Let_def)
  qed
qed

lemma findIndex_distinct:
  "distinct (map f xs) \<Longrightarrow> i < length xs \<Longrightarrow> findIndex (\<lambda>x. f x = f (xs ! i)) xs = int i"
  by (rule findIndex_first) (auto simp: distinct_conv_nth)

lemma splice_remove:
  "i < length xs \<Longrightarrow> array_splice xs (int i) 1 [] = ([xs ! i], remove_at i xs)"
  by (simp add: array_splice_def remove_at_def Let_def take_Suc_conv_app_nth hd_drop_conv_nth
      min_def max_def)

lemma splice_insert:
  "j \<le> length xs \<Longrightarrow> snd (array_splice xs (int j) 0 [x]) = insert_at j x xs"
  by (simp add: array_splice_def insert_at_def Let_def min_def max_def)

lemma handleDragEnd_at:
  assumes "active \<noteq> over_id"
    and "findIndex (\<lambda>item. task_id item = active) items = int i" and "i < length items"
    and "findIndex (\<lambda>item. task_id item = over_id) items = int j" and "j < length items"
  shows "handleDragEnd active (Some over_id) items = Some (reorder_spec i j items)"
proof -
  have "j \<le> length (remove_at i items)"
    using assms(3,5) by (simp add: remove_at_def)
  then show ?thesis
    using assms by (simp add: handleDragEnd_def splice_remove splice_insert reorder_spec_def)
qed

lemma remove_at_insert_at: "j \<le> length ys \<Longrightarrow> remove_at j (insert_at j x ys) = ys"
  by (simp add: remove_at_def insert_at_def)

lemma insert_at_remove_at: "i < length xs \<Longrightarrow> insert_at i (xs ! i) (remove_at i xs) = xs"
  by (simp add: remove_at_def insert_at_def id_take_nth_drop [symmetric] min_def)

lemma nth_insert_at: "j \<le> length ys \<Longrightarrow> insert_at j x ys ! j = x"
  by (simp add: insert_at_def nth_append)

lemma length_reorder_spec: "i < length xs \<Longrightarrow> j < length xs \<Longrightarrow> length (reorder_spec i j xs) = length xs"
  by (auto simp: reorder_spec_def insert_at_def remove_at_def)

text \<open>
  What the specification's reordering does: the element moved sits at index \<open>j\<close>, and with
  it taken out the list is the old list with it taken out, so all other tasks keep their
  order.
\<close>

lemma reorder_spec_moves:
  assumes "i < length xs" "j < length xs"
  shows "reorder_spec i j xs ! j = xs ! i"
    and "remove_at j (reorder_spec i j xs) = remove_at i xs"
proof -
  have j: "j \<le> length (remove_at i xs)"
    using assms by (simp add: remove_at_def)
  then show "reorder_spec i j xs ! j = xs ! i"
    by (simp add: reorder_spec_def nth_insert_at)
  from j show "remove_at j (reorder_spec i j xs) = remove_at i xs"
    by (simp add: reorder_spec_def remove_at_insert_at)
qed

lemma reorder_spec_inverse:
  assumes "i < length xs" "j < length xs"
  shows "reorder_spec j i (reorder_spec i j xs) = xs"
proof -
  have j: "j \<le> length (remove_at i xs)"
    using assms by (simp add: remove_at_def)
  show ?thesis
    unfolding reorder_spec_def
    using assms j by (simp add: nth_insert_at remove_at_insert_at insert_at_remove_at)
qed

text \<open>
  The part of the reordering on which code and specification agree. When both ids are in
  the list and differ, \<^verbatim>\<open>handleDragEnd\<close> is the specification's reordering, from the first
  task with the active id to the first task with the other id.
\<close>

lemma handleDragEnd_both_found:
  assumes "active \<noteq> over_id"
    and "active \<in> task_id ` set items" and "over_id \<in> task_id ` set items"
  shows "handleDragEnd active (Some over_id) items =
           Some (reorder_spec (nat (findIndex (\<lambda>item. task_id item = active) items))
                              (nat (findIndex (\<lambda>item. task_id item = over_id) items)) items)"
proof -
  from assms(2) have "\<exists>x\<in>set items. task_id x = active" by auto
  from findIndex_found [OF this]
  have i: "findIndex (\<lambda>item. task_id item = active) items =
             int (nat (findIndex (\<lambda>item. task_id item = active) items))"
    "nat (findIndex (\<lambda>item. task_id item = active) items) < length items"
    by auto
  from assms(3) have "\<exists>x\<in>set items. task_id x = over_id" by auto
  from findIndex_found [OF this]
  have j: "findIndex (\<lambda>item. task_id item = over_id) items =
             int (nat (findIndex (\<lambda>item. task_id item = over_id) items))"
    "nat (findIndex (\<lambda>item. task_id item = over_id) items) < length items"
    by auto
  from handleDragEnd_at [OF assms(1) i j] show ?thesis .
qed

text \<open>With equal ids, and with nothing under the pointer, the list stays as it is.\<close>

lemma handleDragEnd_same: "handleDragEnd active (Some active) items = Some items"
  by (simp add: handleDragEnd_def)

lemma handleDragEnd_no_over: "handleDragEnd active None items = Some items"
  by (simp add: handleDragEnd_def)

text \<open>
  The end-to-end scenario: ``Morning workout'' dragged onto ``Read for 30 minutes'' ends up
  behind it, and the other tasks keep their order.
\<close>

lemma drag_workout_to_read:
  "map_option (map task_id) (handleDragEnd ''1'' (Some ''3'') defaultTasks) =
     Some [''2'', ''3'', ''1'', ''4'']"
  by (simp add: handleDragEnd_def defaultTasks_def array_splice_def)

text \<open>
  C2. The claim says that a drag with an id that is not in the list changes nothing. The
  code looks the ids up with \<^verbatim>\<open>findIndex\<close> and passes the result to \<^verbatim>\<open>splice\<close> without a
  test for \<open>-1\<close>, which \<^verbatim>\<open>splice\<close> reads as the last position. With the four default tasks
  and the active id ``9'', which none of them has, a drag onto task ``1'' moves
  ``Make the bed'', the last task, to the front.
\<close>

theorem handleDragEnd_unknown_active:
  "''9'' \<notin> task_id ` set defaultTasks \<and>
   handleDragEnd ''9'' (Some ''1'') defaultTasks = Some (last defaultTasks # butlast defaultTasks) \<and>
   handleDragEnd ''9'' (Some ''1'') defaultTasks \<noteq> Some defaultTasks"
  by (simp add: handleDragEnd_def defaultTasks_def array_splice_def)

text \<open>
  The same with the ids exchanged: a drag of task ``1'' onto the id ``9'' puts
  ``Morning workout'' before the last task.
\<close>

lemma handleDragEnd_unknown_over:
  "map_option (map task_id) (handleDragEnd ''1'' (Some ''9'') defaultTasks) =
     Some [''2'', ''3'', ''1'', ''4'']"
  by (simp add: handleDragEnd_def defaultTasks_def array_splice_def)

subsection \<open>Reordering there and back\<close>

lemma map_remove_at: "map f (remove_at i xs) = remove_at i (map f xs)"
  by (simp add: remove_at_def take_map drop_map)

lemma map_insert_at: "map f (insert_at j x xs) = insert_at j (f x) (map f xs)"
  by (simp add: insert_at_def take_map drop_map)

lemma distinct_remove_at:
  assumes "distinct ys" "i < length ys"
  shows "distinct (remove_at i ys)" and "ys ! i \<notin> set (remove_at i ys)"
proof -
  have "ys = take i ys @ ys ! i # drop (Suc i) ys"
    using assms(2) by (rule id_take_nth_drop)
  with assms(1) have "distinct (take i ys @ ys ! i # drop (Suc i) ys)" by simp
  then show "distinct (remove_at i ys)" and "ys ! i \<notin> set (remove_at i ys)"
    by (auto simp: remove_at_def)
qed

lemma distinct_insert_at:
  assumes "distinct zs" "x \<notin> set zs"
  shows "distinct (insert_at j x zs)"
proof -
  from assms(1) have "set (take j zs) \<inter> set (drop j zs) = {}"
    by (rule set_take_disj_set_drop_if_distinct) simp
  moreover from assms(2) have "x \<notin> set (take j zs)" "x \<notin> set (drop j zs)"
    by (auto dest: in_set_takeD in_set_dropD)
  ultimately show ?thesis
    using assms(1) by (auto simp: insert_at_def)
qed

lemma distinct_reorder_spec:
  assumes "distinct (map f xs)" "i < length xs"
  shows "distinct (map f (reorder_spec i j xs))"
proof -
  from assms(2) have len: "i < length (map f xs)" by simp
  from distinct_remove_at [OF assms(1) len] assms(2)
  have "distinct (remove_at i (map f xs))" "f (xs ! i) \<notin> set (remove_at i (map f xs))"
    by simp_all
  then have "distinct (insert_at j (f (xs ! i)) (remove_at i (map f xs)))"
    by (rule distinct_insert_at)
  then show ?thesis
    by (simp add: reorder_spec_def map_insert_at map_remove_at)
qed

text \<open>
  C5, as amended. In a list whose ids are pairwise distinct, with \<open>a\<close> and \<open>b\<close> two
  different ids of the list: dragging \<open>a\<close> onto \<open>b\<close>, and then dragging \<open>a\<close> onto the task
  that now sits where \<open>a\<close> was, gives the list back in its first order.
\<close>

theorem reorder_back:
  assumes "distinct (map task_id items)"
    and "a \<in> task_id ` set items" and "b \<in> task_id ` set items" and "a \<noteq> b"
  shows "\<exists>moved. handleDragEnd a (Some b) items = Some moved \<and>
           handleDragEnd a
             (Some (task_id (moved ! nat (findIndex (\<lambda>item. task_id item = a) items)))) moved =
           Some items"
proof -
  define i where "i = nat (findIndex (\<lambda>item. task_id item = a) items)"
  define j where "j = nat (findIndex (\<lambda>item. task_id item = b) items)"
  define moved where "moved = reorder_spec i j items"
  from assms(2) have "\<exists>x\<in>set items. task_id x = a" by auto
  from findIndex_found [OF this] have i: "i < length items" "task_id (items ! i) = a"
    by (auto simp: i_def)
  from assms(3) have "\<exists>x\<in>set items. task_id x = b" by auto
  from findIndex_found [OF this] have j: "j < length items" "task_id (items ! j) = b"
    by (auto simp: j_def)
  from i j assms(4) have ij: "i \<noteq> j" by auto
  have first: "handleDragEnd a (Some b) items = Some moved"
    unfolding moved_def i_def j_def using assms(4,2,3) by (rule handleDragEnd_both_found)
  have len: "length moved = length items"
    unfolding moved_def using i(1) j(1) by (rule length_reorder_spec)
  have dist: "distinct (map task_id moved)"
    unfolding moved_def using assms(1) i(1) by (rule distinct_reorder_spec)
  have at_j: "task_id (moved ! j) = a"
    using reorder_spec_moves(1) [OF i(1) j(1)] i(2) by (simp add: moved_def)
  have "findIndex (\<lambda>item. task_id item = task_id (moved ! j)) moved = int j"
    using dist j(1) len by (intro findIndex_distinct) simp_all
  with at_j have fa: "findIndex (\<lambda>item. task_id item = a) moved = int j" by simp
  have fc: "findIndex (\<lambda>item. task_id item = task_id (moved ! i)) moved = int i"
    using dist i(1) len by (intro findIndex_distinct) simp_all
  have "task_id (moved ! i) \<noteq> task_id (moved ! j)"
    using dist ij i(1) j(1) len by (auto simp: distinct_conv_nth)
  with at_j have ne: "a \<noteq> task_id (moved ! i)" by simp
  have "handleDragEnd a (Some (task_id (moved ! i))) moved = Some (reorder_spec j i moved)"
    using ne fa _ fc _ by (rule handleDragEnd_at) (simp_all add: len i(1) j(1))
  also have "reorder_spec j i moved = items"
    unfolding moved_def using i(1) j(1) by (rule reorder_spec_inverse)
  finally have "handleDragEnd a (Some (task_id (moved ! i))) moved = Some items" .
  with first show ?thesis unfolding i_def by blast
qed

theorem reorder_back_witness:
  "distinct (map task_id defaultTasks) \<and> ''1'' \<in> task_id ` set defaultTasks \<and>
   ''3'' \<in> task_id ` set defaultTasks \<and> ''1'' \<noteq> ''3'' \<and>
   (\<exists>moved. handleDragEnd ''1'' (Some ''3'') defaultTasks = Some moved \<and>
      handleDragEnd ''1''
        (Some (task_id (moved ! nat (findIndex (\<lambda>item. task_id item = ''1'') defaultTasks)))) moved =
      Some defaultTasks)"
proof -
  have h: "distinct (map task_id defaultTasks)" "''1'' \<in> task_id ` set defaultTasks"
    "''3'' \<in> task_id ` set defaultTasks" "''1'' \<noteq> ''3''"
    by (simp_all add: defaultTasks_def)
  from reorder_back [OF h] h show ?thesis by blast
qed

text \<open>
  C5 as stated, for every list, fails when two tasks have one id. In \<open>same_ms_tasks\<close> the
  drag of ``5'' onto ``6'' moves the first task to the end; the slot it left holds the
  other task with id ``5'', a drag of ``5'' onto ``5'' changes nothing, and the first order
  is not restored.
\<close>

theorem reorder_back_counterexample:
  "''5'' \<in> task_id ` set same_ms_tasks \<and> ''6'' \<in> task_id ` set same_ms_tasks \<and>
   handleDragEnd ''5'' (Some ''6'') same_ms_tasks = Some (rotate1 same_ms_tasks) \<and>
   nat (findIndex (\<lambda>item. task_id item = ''5'') same_ms_tasks) = 0 \<and>
   task_id (rotate1 same_ms_tasks ! 0) = ''5'' \<and>
   handleDragEnd ''5'' (Some ''5'') (rotate1 same_ms_tasks) = Some (rotate1 same_ms_tasks) \<and>
   rotate1 same_ms_tasks \<noteq> same_ms_tasks"
  by (simp add: same_ms_tasks_def handleDragEnd_def array_splice_def)

lemma same_ms_tasks_reachable:
  "addTasks [(''A'', physical, 5), (''B'', physical, 5), (''C'', physical, 6)] [] = same_ms_tasks"
  by (simp add: addTasks_def addTask_def trim_def is_space_def same_ms_tasks_def
      toString_def nat_toString.simps digit_char_def)

subsection \<open>Creating several tasks\<close>

lemma addTasks_append:
  "\<forall>(newTask, selectedCategory, now) \<in> set submits. trim newTask \<noteq> [] \<Longrightarrow>
     addTasks submits tasks = tasks @ map new_task submits"
  unfolding addTasks_def
  by (induction submits arbitrary: tasks) (auto simp: addTask_def new_task_def)

lemma task_id_new_task: "task_id (new_task submit) = toString (snd (snd submit))"
  by (cases submit) (simp add: new_task_def)

lemma completed_new_task: "\<not> completed (new_task submit)"
  by (cases submit) (simp add: new_task_def)

lemma distinct_new_ids:
  "distinct (map (snd \<circ> snd) submits) \<Longrightarrow> distinct (map (task_id \<circ> new_task) submits)"
proof (induction submits)
  case Nil
  show ?case by simp
next
  case (Cons submit submits)
  then have "snd (snd submit) \<notin> (snd \<circ> snd) ` set submits" by simp
  then have "toString (snd (snd submit)) \<notin> (\<lambda>x. toString (snd (snd x))) ` set submits"
    by (auto dest: toString_inj)
  with Cons show ?case
    by (simp add: task_id_new_task o_def)
qed

text \<open>
  C4, as amended. After any run of submissions with texts that are not blank, the list is
  the list before followed by as many new tasks, none of them completed. If the ids were
  pairwise distinct before, the clock readings of the submissions are pairwise distinct
  and no reading's numeral is the id of a task already there, then the ids are pairwise
  distinct afterwards.
\<close>

theorem addTasks_count_and_ids:
  assumes "\<forall>(newTask, selectedCategory, now) \<in> set submits. trim newTask \<noteq> []"
  shows "length (addTasks submits tasks) = length tasks + length submits \<and>
         take (length tasks) (addTasks submits tasks) = tasks \<and>
         (\<forall>t \<in> set (drop (length tasks) (addTasks submits tasks)). \<not> completed t) \<and>
         (distinct (map task_id tasks) \<and> distinct (map (snd \<circ> snd) submits) \<and>
          (\<forall>(newTask, selectedCategory, now) \<in> set submits. toString now \<notin> task_id ` set tasks)
            \<longrightarrow> distinct (map task_id (addTasks submits tasks)))"
proof -
  note eq = addTasks_append [OF assms, of tasks]
  have "distinct (map task_id (tasks @ map new_task submits))"
    if d: "distinct (map task_id tasks)" "distinct (map (snd \<circ> snd) submits)"
      and fresh: "\<forall>(newTask, selectedCategory, now) \<in> set submits. toString now \<notin> task_id ` set tasks"
  proof -
    have "task_id (new_task submit) \<notin> task_id ` set tasks" if "submit \<in> set submits" for submit
    proof -
      obtain newTask selectedCategory now where "submit = (newTask, selectedCategory, now)"
        by (cases submit)
      with that fresh show ?thesis by (auto simp: task_id_new_task)
    qed
    note unseen = this
    have "set (map task_id tasks) \<inter> set (map (task_id \<circ> new_task) submits) = {}"
    proof (rule equals0I)
      fix s assume "s \<in> set (map task_id tasks) \<inter> set (map (task_id \<circ> new_task) submits)"
      then have old: "s \<in> task_id ` set tasks" and "s \<in> (task_id \<circ> new_task) ` set submits"
        by auto
      then obtain submit where "submit \<in> set submits" "s = task_id (new_task submit)"
        by auto
      with unseen [of submit] old show False by simp
    qed
    with d distinct_new_ids [OF d(2)] show ?thesis by simp
  qed
  then show ?thesis
    unfolding eq by (auto simp: completed_new_task)
qed

theorem addTasks_count_and_ids_witness:
  "trim ''Stretch'' \<noteq> [] \<and> trim ''Nap'' \<noteq> [] \<and>
   distinct (map task_id defaultTasks) \<and>
   (1700000000000 :: int) \<noteq> 1700000000001 \<and>
   toString 1700000000000 \<notin> task_id ` set defaultTasks \<and>
   toString 1700000000001 \<notin> task_id ` set defaultTasks \<and>
   length (addTasks [(''Stretch'', physical, 1700000000000), (''Nap'', mental, 1700000000001)] defaultTasks) = 6 \<and>
   distinct (map task_id
     (addTasks [(''Stretch'', physical, 1700000000000), (''Nap'', mental, 1700000000001)] defaultTasks))"
proof -
  let ?submits = "[(''Stretch'', physical, 1700000000000 :: int), (''Nap'', mental, 1700000000001)]"
  have nonblank: "\<forall>(newTask, selectedCategory, now) \<in> set ?submits. trim newTask \<noteq> []"
    by (simp add: trim_def is_space_def)
  have d: "distinct (map task_id defaultTasks)" "distinct (map (snd \<circ> snd) ?submits)"
    by (simp_all add: defaultTasks_def)
  have fresh: "\<forall>(newTask, selectedCategory, now) \<in> set ?submits. toString now \<notin> task_id ` set defaultTasks"
    by (simp add: defaultTasks_def toString_def nat_toString.simps digit_char_def)
  have "length defaultTasks = 4" by (simp add: defaultTasks_def)
  with addTasks_count_and_ids [OF nonblank, of defaultTasks] nonblank d fresh
  show ?thesis by simp
qed

text \<open>
  C4 as stated, with ids always unique, fails for two submissions at one clock reading: both
  tasks get the numeral of that reading as their id.
\<close>

theorem addTask_same_clock_counterexample:
  "trim ''A'' \<noteq> [] \<and> trim ''B'' \<noteq> [] \<and> distinct (map task_id defaultTasks) \<and>
   \<not> distinct (map task_id
     (addTask ''B'' mental 1700000000000 (addTask ''A'' physical 1700000000000 defaultTasks)))"
  by (simp add: addTask_def trim_def is_space_def defaultTasks_def)

subsection \<open>Parsing a serialised string\<close>

lemma lt16: "d < 16 \<Longrightarrow> d \<in> {0, 1, 2, 3, 4, 5, 6, 7, 8, 9, 10, 11, 12, 13, 14, 15::nat}"
  by simp arith

lemma hex_value_hex_digit: "d < 16 \<Longrightarrow> hex_value (hex_digit d) = Some d"
  by (drule lt16) (auto simp: hex_value_def hex_digit_def)

lemma hex_value_zero: "hex_value (CHR ''0'') = Some 0"
  by (simp add: hex_value_def)

lemma hex4_control:
  assumes "n < 256"
  shows "hex4 (CHR ''0'') (CHR ''0'') (hex_digit (n div 16)) (hex_digit (n mod 16)) = Some n"
proof -
  have "n div 16 < 16" using assms by simp
  moreover have "n mod 16 < 16" by simp
  ultimately show ?thesis
    by (simp add: hex4_def hex_value_zero hex_value_hex_digit)
qed

lemma map_parsed_Inr [simp]: "map_parsed f (Inr (x, r)) = Inr (f x, r)"
  by (simp add: map_parsed_def)

lemma map_parsed_Inl [simp]: "map_parsed f (Inl e) = Inl e"
  by (simp add: map_parsed_def)

lemma parse_chars_quote_char:
  "parse_chars (quote_char c @ r) = map_parsed ((#) c) (parse_chars r)"
proof -
  consider (special) "c \<in> {CHR 0x22, CHR 0x5C, CHR 0x08, CHR 0x09, CHR 0x0A, CHR 0x0C, CHR 0x0D}"
    | (control) "c \<notin> {CHR 0x22, CHR 0x5C, CHR 0x08, CHR 0x09, CHR 0x0A, CHR 0x0C, CHR 0x0D}"
        "of_char c < (0x20 :: nat)"
    | (plain) "c \<notin> {CHR 0x22, CHR 0x5C, CHR 0x08, CHR 0x09, CHR 0x0A, CHR 0x0C, CHR 0x0D}"
        "\<not> of_char c < (0x20 :: nat)"
    by blast
  then show ?thesis
  proof cases
    case special
    then show ?thesis
      by (auto simp: quote_char_def unescape_def)
  next
    case control
    have n: "(of_char c :: nat) < 256" using control(2) by simp
    have "char_of (of_char c :: nat) = c" by simp
    with control n show ?thesis
      by (simp add: quote_char_def hex4_control)
  next
    case plain
    then show ?thesis
      by (simp add: quote_char_def)
  qed
qed

lemma parse_chars_quoted:
  "parse_chars (concat (map quote_char s) @ CHR 0x22 # rest) = Inr (s, rest)"
  by (induction s) (simp_all add: parse_chars_quote_char)

lemma parse_chars_quote: "parse_chars (tl (quote s) @ rest) = Inr (s, rest)"
  using parse_chars_quoted [of s rest] by (simp add: quote_def)

subsection \<open>Parsing a serialised value\<close>

lemma skip_ws_Cons: "\<not> is_ws c \<Longrightarrow> skip_ws (c # r) = c # r"
  by (simp add: skip_ws_def)

lemma not_ws [simp]:
  "\<not> is_ws (CHR 0x22)" "\<not> is_ws (CHR ''['')" "\<not> is_ws (CHR '']'')" "\<not> is_ws (CHR ''{'')"
  "\<not> is_ws (CHR ''}'')" "\<not> is_ws (CHR '','')" "\<not> is_ws (CHR '':'')" "\<not> is_ws (CHR ''t'')"
  "\<not> is_ws (CHR ''f'')" "\<not> is_ws (CHR ''n'')"
  by (simp_all add: is_ws_def)

lemma stringify_start:
  "number_free v \<Longrightarrow>
     \<exists>c cs. JSON_stringify v = c # cs \<and> \<not> is_ws c \<and> c \<noteq> CHR '']'' \<and> c \<noteq> CHR ''}''"
  by (cases v) (simp_all add: quote_def)

lemma stringify_elements_start:
  assumes "vs \<noteq> []" "number_free_elements vs"
  shows "\<exists>c cs. stringify_elements vs = c # cs \<and> \<not> is_ws c \<and> c \<noteq> CHR '']''"
proof (cases vs)
  case Nil
  with assms show ?thesis by simp
next
  case (Cons v ws)
  with assms have "number_free v" by simp
  from stringify_start [OF this] Cons show ?thesis
    by (cases ws) auto
qed

lemma stringify_members_start:
  assumes "kvs \<noteq> []"
  shows "\<exists>cs. stringify_members kvs = CHR 0x22 # cs"
proof (cases kvs)
  case Nil
  with assms show ?thesis by simp
next
  case (Cons kv ws)
  then show ?thesis
    by (cases kv; cases ws) (simp_all add: quote_def)
qed

lemma parse_value_string:
  "parse_value (Suc n) (quote s @ rest) = Inr (JStr s, rest)"
  by (simp add: quote_def skip_ws_Cons parse_chars_quoted)

lemma parse_value_bool:
  "parse_value (Suc n) (JSON_stringify (JBool b) @ rest) = Inr (JBool b, rest)"
  by (simp add: skip_ws_Cons parse_literal_def)

lemma parse_value_null:
  "parse_value (Suc n) (JSON_stringify JNull @ rest) = Inr (JNull, rest)"
  by (simp add: skip_ws_Cons parse_literal_def)

lemma parse_value_empty_array:
  "parse_value (Suc n) (JSON_stringify (JArr []) @ rest) = Inr (JArr [], rest)"
  by (simp add: skip_ws_Cons)

lemma parse_value_empty_object:
  "parse_value (Suc n) (JSON_stringify (JObj []) @ rest) = Inr (JObj [], rest)"
  by (simp add: skip_ws_Cons)

lemma parse_value_array:
  assumes "vs \<noteq> []" "number_free_elements vs"
  shows "parse_value (Suc n) (JSON_stringify (JArr vs) @ rest) =
           map_parsed JArr (parse_elements n (stringify_elements vs @ CHR '']'' # rest))"
proof -
  from stringify_elements_start [OF assms] obtain c cs
    where "stringify_elements vs = c # cs" "\<not> is_ws c" "c \<noteq> CHR '']''" by blast
  then show ?thesis
    by (simp add: skip_ws_Cons)
qed

lemma parse_value_object:
  assumes "kvs \<noteq> []"
  shows "parse_value (Suc n) (JSON_stringify (JObj kvs) @ rest) =
           map_parsed JObj (parse_members n (stringify_members kvs @ CHR ''}'' # rest))"
proof -
  from stringify_members_start [OF assms] obtain cs
    where "stringify_members kvs = CHR 0x22 # cs" by blast
  then show ?thesis
    by (simp add: skip_ws_Cons)
qed


lemma parse_elements_last:
  assumes "parse_value n (JSON_stringify v @ CHR '']'' # rest) = Inr (v, CHR '']'' # rest)"
  shows "parse_elements (Suc n) (JSON_stringify v @ CHR '']'' # rest) = Inr ([v], rest)"
  using assms by (simp add: skip_ws_Cons)

lemma parse_elements_more:
  assumes "parse_value n (JSON_stringify v @ CHR '','' # later) = Inr (v, CHR '','' # later)"
  shows "parse_elements (Suc n) (JSON_stringify v @ CHR '','' # later) =
           map_parsed ((#) v) (parse_elements n later)"
  using assms by (simp add: skip_ws_Cons)

lemma parse_members_last:
  assumes "parse_value n (JSON_stringify v @ CHR ''}'' # rest) = Inr (v, CHR ''}'' # rest)"
  shows "parse_members (Suc n) (quote k @ CHR '':'' # JSON_stringify v @ CHR ''}'' # rest) =
           Inr ([(k, v)], rest)"
  using assms by (simp add: quote_def skip_ws_Cons parse_chars_quoted)

lemma parse_members_more:
  assumes "parse_value n (JSON_stringify v @ CHR '','' # later) = Inr (v, CHR '','' # later)"
  shows "parse_members (Suc n) (quote k @ CHR '':'' # JSON_stringify v @ CHR '','' # later) =
           map_parsed ((#) (k, v)) (parse_members n later)"
  using assms by (simp add: quote_def skip_ws_Cons parse_chars_quoted)

lemma parse_stringify_all:
  "(number_free v \<longrightarrow> (\<forall>n rest. parse_fuel v \<le> n \<longrightarrow>
       parse_value n (JSON_stringify v @ rest) = Inr (v, rest)))"
  "(vs \<noteq> [] \<longrightarrow> number_free_elements vs \<longrightarrow> (\<forall>n rest. parse_fuel_elements vs \<le> n \<longrightarrow>
       parse_elements n (stringify_elements vs @ CHR '']'' # rest) = Inr (vs, rest)))"
  "(kvs \<noteq> [] \<longrightarrow> number_free_members kvs \<longrightarrow> (\<forall>n rest. parse_fuel_members kvs \<le> n \<longrightarrow>
       parse_members n (stringify_members kvs @ CHR ''}'' # rest) = Inr (kvs, rest)))"
proof (induction v and vs and kvs rule: JSON_stringify_stringify_elements_stringify_members.induct)
  case 1
  show ?case
  proof (intro impI allI)
    fix n rest assume "parse_fuel JNull \<le> n"
    then obtain m where "n = Suc m" by (cases n) auto
    then show "parse_value n (JSON_stringify JNull @ rest) = Inr (JNull, rest)"
      using parse_value_null by simp
  qed
next
  case (2 b)
  show ?case
  proof (intro impI allI)
    fix n rest assume "parse_fuel (JBool b) \<le> n"
    then obtain m where "n = Suc m" by (cases n) auto
    then show "parse_value n (JSON_stringify (JBool b) @ rest) = Inr (JBool b, rest)"
      using parse_value_bool by simp
  qed
next
  case (3 n)
  show ?case by simp
next
  case (4 s)
  show ?case
  proof (intro impI allI)
    fix n rest assume "parse_fuel (JStr s) \<le> n"
    then obtain m where "n = Suc m" by (cases n) auto
    then show "parse_value n (JSON_stringify (JStr s) @ rest) = Inr (JStr s, rest)"
      using parse_value_string by simp
  qed
next
  case (5 vs)
  show ?case
  proof (intro impI allI)
    fix n rest assume nf: "number_free (JArr vs)" and fuel: "parse_fuel (JArr vs) \<le> n"
    from fuel obtain m where n: "n = Suc m" and m: "parse_fuel_elements vs \<le> m"
      by (cases n) auto
    show "parse_value n (JSON_stringify (JArr vs) @ rest) = Inr (JArr vs, rest)"
    proof (cases "vs = []")
      case True
      then show ?thesis using n parse_value_empty_array by simp
    next
      case False
      with 5 nf m have "parse_elements m (stringify_elements vs @ CHR '']'' # rest) = Inr (vs, rest)"
        by simp
      moreover from False nf have "parse_value (Suc m) (JSON_stringify (JArr vs) @ rest) =
          map_parsed JArr (parse_elements m (stringify_elements vs @ CHR '']'' # rest))"
        by (intro parse_value_array) simp_all
      ultimately show ?thesis
        unfolding n by (simp only: map_parsed_Inr)
    qed
  qed
next
  case (6 kvs)
  show ?case
  proof (intro impI allI)
    fix n rest assume nf: "number_free (JObj kvs)" and fuel: "parse_fuel (JObj kvs) \<le> n"
    from fuel obtain m where n: "n = Suc m" and m: "parse_fuel_members kvs \<le> m"
      by (cases n) auto
    show "parse_value n (JSON_stringify (JObj kvs) @ rest) = Inr (JObj kvs, rest)"
    proof (cases "kvs = []")
      case True
      then show ?thesis using n parse_value_empty_object by simp
    next
      case False
      with 6 nf m have "parse_members m (stringify_members kvs @ CHR ''}'' # rest) = Inr (kvs, rest)"
        by simp
      moreover from False have "parse_value (Suc m) (JSON_stringify (JObj kvs) @ rest) =
          map_parsed JObj (parse_members m (stringify_members kvs @ CHR ''}'' # rest))"
        by (rule parse_value_object)
      ultimately show ?thesis
        unfolding n by (simp only: map_parsed_Inr)
    qed
  qed
next
  case 7
  show ?case by simp
next
  case (8 v)
  show ?case
  proof (intro impI allI)
    fix n rest assume nf: "number_free_elements [v]" and fuel: "parse_fuel_elements [v] \<le> n"
    from fuel obtain m where n: "n = Suc m" and m: "parse_fuel v \<le> m"
      by (cases n) auto
    from 8 nf m have "parse_value m (JSON_stringify v @ CHR '']'' # rest) = Inr (v, CHR '']'' # rest)"
      by simp
    from parse_elements_last [OF this]
    show "parse_elements n (stringify_elements [v] @ CHR '']'' # rest) = Inr ([v], rest)"
      unfolding n by (simp only: stringify_elements.simps)
  qed
next
  case (9 v w vs)
  show ?case
  proof (intro impI allI)
    fix n rest assume nf: "number_free_elements (v # w # vs)"
      and fuel: "parse_fuel_elements (v # w # vs) \<le> n"
    from fuel obtain m where n: "n = Suc m" and m: "parse_fuel v \<le> m"
      "parse_fuel_elements (w # vs) \<le> m"
      by (cases n) auto
    let ?later = "stringify_elements (w # vs) @ CHR '']'' # rest"
    from 9(1) nf m have "parse_value m (JSON_stringify v @ CHR '','' # ?later) = Inr (v, CHR '','' # ?later)"
      by simp
    moreover from 9(2) nf m have "parse_elements m ?later = Inr (w # vs, rest)"
      by simp
    ultimately show "parse_elements n (stringify_elements (v # w # vs) @ CHR '']'' # rest) =
        Inr (v # w # vs, rest)"
      unfolding n
      by (simp only: stringify_elements.simps append_assoc append_Cons parse_elements_more
          map_parsed_Inr)
  qed
next
  case 10
  show ?case by simp
next
  case (11 k v)
  show ?case
  proof (intro impI allI)
    fix n rest assume nf: "number_free_members [(k, v)]" and fuel: "parse_fuel_members [(k, v)] \<le> n"
    from fuel obtain m where n: "n = Suc m" and m: "parse_fuel v \<le> m"
      by (cases n) auto
    from 11 nf m have "parse_value m (JSON_stringify v @ CHR ''}'' # rest) = Inr (v, CHR ''}'' # rest)"
      by simp
    from parse_members_last [OF this]
    show "parse_members n (stringify_members [(k, v)] @ CHR ''}'' # rest) = Inr ([(k, v)], rest)"
      unfolding n by (simp only: stringify_members.simps append_assoc append_Cons)
  qed
next
  case (12 k v kv kvs)
  show ?case
  proof (intro impI allI)
    fix n rest assume nf: "number_free_members ((k, v) # kv # kvs)"
      and fuel: "parse_fuel_members ((k, v) # kv # kvs) \<le> n"
    from fuel obtain m where n: "n = Suc m" and m: "parse_fuel v \<le> m"
      "parse_fuel_members (kv # kvs) \<le> m"
      by (cases n) auto
    let ?later = "stringify_members (kv # kvs) @ CHR ''}'' # rest"
    from 12(1) nf m have "parse_value m (JSON_stringify v @ CHR '','' # ?later) = Inr (v, CHR '','' # ?later)"
      by simp
    moreover from 12(2) nf m have "parse_members m ?later = Inr (kv # kvs, rest)"
      by simp
    ultimately show "parse_members n (stringify_members ((k, v) # kv # kvs) @ CHR ''}'' # rest) =
        Inr ((k, v) # kv # kvs, rest)"
      unfolding n
      by (simp only: stringify_members.simps append_assoc append_Cons parse_members_more
          map_parsed_Inr)
  qed
qed

lemma length_quote: "2 \<le> length (quote s)"
  by (simp add: quote_def)

lemma parse_fuel_bound:
  "(number_free v \<longrightarrow> parse_fuel v \<le> 2 * length (JSON_stringify v))"
  "(number_free_elements vs \<longrightarrow> parse_fuel_elements vs \<le> 2 * length (stringify_elements vs) + 1)"
  "(number_free_members kvs \<longrightarrow> parse_fuel_members kvs \<le> 2 * length (stringify_members kvs) + 1)"
proof (induction v and vs and kvs rule: JSON_stringify_stringify_elements_stringify_members.induct)
  case (4 s)
  show ?case using length_quote [of s] by simp
qed auto

text \<open>\<^verbatim>\<open>JSON.parse\<close> gives back the value \<^verbatim>\<open>JSON.stringify\<close> was given.\<close>

lemma JSON_parse_stringify:
  assumes "number_free v"
  shows "JSON_parse (JSON_stringify v) = Inr v"
proof -
  from parse_fuel_bound(1) assms have "parse_fuel v \<le> 2 * length (JSON_stringify v) + 1"
    by fastforce
  with parse_stringify_all(1) [of v] assms
  have "parse_value (2 * length (JSON_stringify v) + 1) (JSON_stringify v @ []) = Inr (v, [])"
    by blast
  then show ?thesis
    by (simp add: JSON_parse_def skip_ws_def)
qed

subsection \<open>The fuel of \<open>JSON_parse\<close> never runs out\<close>

lemma length_skip_ws: "length (skip_ws s) \<le> length s"
  by (simp add: skip_ws_def length_dropWhile_le)

lemma skip_ws_ConsD: "skip_ws s = c # cs \<Longrightarrow> length cs < length s"
  using length_skip_ws [of s] by simp

lemma map_parsed_InrD: "map_parsed f p = Inr (y, r) \<Longrightarrow> \<exists>x. p = Inr (x, r) \<and> y = f x"
  by (auto simp: map_parsed_def split: sum.splits)

lemma map_parsed_OutOfFuel: "map_parsed f p = Inl e \<longleftrightarrow> p = Inl e"
  by (auto simp: map_parsed_def split: sum.splits)

lemma parse_chars_length: "parse_chars s = Inr (x, r) \<Longrightarrow> length r < length s"
proof (induction s arbitrary: x rule: parse_chars.induct)
  case 1
  then show ?case by simp
next
  case (2 c cs)
  show ?case
    using "2.prems" "2.IH"
    by (auto split: if_splits list.splits option.splits dest!: map_parsed_InrD)
       (fastforce+)?
qed


lemma scan_digits_length: "scan_digits s = Some r \<Longrightarrow> length r < length s"
  by (auto simp: scan_digits_def less_Suc_eq_le length_dropWhile_le split: list.splits if_splits)

lemma scan_sign_length: "length (scan_sign s) \<le> length s"
  by (simp add: scan_sign_def split: list.splits)

lemma scan_int_length: "scan_int s = Some r \<Longrightarrow> length r < length s"
  by (auto simp: scan_int_def split: list.splits if_splits dest: scan_digits_length)

lemma scan_frac_length: "scan_frac s = Some r \<Longrightarrow> length r \<le> length s"
  by (cases s) (auto simp: scan_frac_def split: if_splits dest: scan_digits_length)

lemma scan_exp_length:
  assumes "scan_exp s = Some r"
  shows "length r \<le> length s"
proof (cases s)
  case Nil
  with assms show ?thesis by (simp add: scan_exp_def)
next
  case (Cons c cs)
  show ?thesis
  proof (cases "c = CHR ''e'' \<or> c = CHR ''E''")
    case False
    with assms Cons show ?thesis by (simp add: scan_exp_def)
  next
    case True
    with assms Cons obtain g gs where cs: "cs = g # gs"
      by (cases cs) (auto simp: scan_exp_def)
    show ?thesis
    proof (cases "g = CHR ''+'' \<or> g = CHR ''-''")
      case sign: True
      with assms Cons True cs have "scan_digits gs = Some r"
        by (simp add: scan_exp_def)
      from scan_digits_length [OF this] Cons cs show ?thesis by simp
    next
      case nosign: False
      with assms Cons True cs have "scan_digits cs = Some r"
        by (simp add: scan_exp_def)
      from scan_digits_length [OF this] Cons show ?thesis by simp
    qed
  qed
qed

lemma parse_number_length:
  assumes "parse_number s = Inr (v, r)"
  shows "length r < length s"
proof -
  from assms obtain s2 s3 where "scan_int (scan_sign s) = Some s2" "scan_frac s2 = Some s3"
    "scan_exp s3 = Some r"
    by (auto simp: parse_number_def split: option.splits Option.bind_splits)
  from scan_int_length [OF this(1)] scan_frac_length [OF this(2)] scan_exp_length [OF this(3)]
    scan_sign_length [of s]
  show ?thesis by simp
qed

lemma parse_literal_length:
  assumes "parse_literal s = Inr (v, r)"
  shows "length r \<le> length s"
proof (cases "take 4 s = ''true'' \<or> take 5 s = ''false'' \<or> take 4 s = ''null''")
  case True
  with assms have "r = drop 4 s \<or> r = drop 5 s"
    by (auto simp: parse_literal_def split: if_splits)
  then show ?thesis by auto
next
  case False
  with assms have "parse_number s = Inr (v, r)"
    by (simp add: parse_literal_def)
  from parse_number_length [OF this] show ?thesis by simp
qed

lemma parse_length:
  "(\<forall>v r. parse_value n s = Inr (v, r) \<longrightarrow> length r \<le> length s)"
  "(\<forall>vs r. parse_elements n s = Inr (vs, r) \<longrightarrow> length r \<le> length s)"
  "(\<forall>kvs r. parse_members n s = Inr (kvs, r) \<longrightarrow> length r \<le> length s)"
proof (induction n s and n s and n s rule: parse_value_parse_elements_parse_members.induct)
  case (1 s)
  show ?case by simp
next
  case (2 n s)
  show ?case
  proof (intro allI impI)
    fix v r assume pv: "parse_value (Suc n) s = Inr (v, r)"
    then obtain c cs where sk: "skip_ws s = c # cs"
      by (auto split: list.splits)
    from skip_ws_ConsD [OF sk] have lcs: "length cs < length s" .
    consider (str) "c = CHR 0x22"
      | (arr) "c \<noteq> CHR 0x22" "c = CHR ''[''"
      | (obj) "c \<noteq> CHR 0x22" "c \<noteq> CHR ''[''" "c = CHR ''{''"
      | (lit) "c \<noteq> CHR 0x22" "c \<noteq> CHR ''[''" "c \<noteq> CHR ''{''"
      by blast
    then show "length r \<le> length s"
    proof cases
      case str
      with pv sk obtain x where "parse_chars cs = Inr (x, r)"
        by (auto dest!: map_parsed_InrD)
      from parse_chars_length [OF this] lcs show ?thesis by simp
    next
      case arr
      from pv sk arr obtain d ds where sk2: "skip_ws cs = d # ds"
        by (auto split: list.splits)
      show ?thesis
      proof (cases "d = CHR '']''")
        case True
        with pv sk arr sk2 have "r = ds" by simp
        with skip_ws_ConsD [OF sk2] lcs show ?thesis by simp
      next
        case False
        with pv sk arr sk2 obtain vs where "parse_elements n cs = Inr (vs, r)"
          by (auto dest!: map_parsed_InrD)
        with "2.IH"(1) [OF sk _ arr(2) sk2 False] arr(1) lcs show ?thesis
          by fastforce
      qed
    next
      case obj
      from pv sk obj obtain d ds where sk2: "skip_ws cs = d # ds"
        by (auto split: list.splits)
      show ?thesis
      proof (cases "d = CHR ''}''")
        case True
        with pv sk obj sk2 have "r = ds" by simp
        with skip_ws_ConsD [OF sk2] lcs show ?thesis by simp
      next
        case False
        with pv sk obj sk2 obtain kvs where "parse_members n cs = Inr (kvs, r)"
          by (auto dest!: map_parsed_InrD)
        with "2.IH"(2) [OF sk _ _ obj(3) sk2 False] obj(1,2) lcs show ?thesis
          by fastforce
      qed
    next
      case lit
      with pv sk have "parse_literal (c # cs) = Inr (v, r)" by simp
      from parse_literal_length [OF this] lcs show ?thesis by simp
    qed
  qed
next
  case (3 s)
  show ?case by simp
next
  case (4 n s)
  show ?case
  proof (intro allI impI)
    fix vs r assume pe: "parse_elements (Suc n) s = Inr (vs, r)"
    then obtain v r1 where pv: "parse_value n s = Inr (v, r1)"
      by (auto split: sum.splits)
    with "4.IH"(1) have l1: "length r1 \<le> length s" by simp
    from pe pv obtain c cs where sk: "skip_ws r1 = c # cs"
      by (auto split: list.splits)
    from skip_ws_ConsD [OF sk] have lcs: "length cs < length r1" .
    show "length r \<le> length s"
    proof (cases "c = CHR '',''")
      case True
      with pe pv sk obtain ws where "parse_elements n cs = Inr (ws, r)"
        by (auto dest!: map_parsed_InrD)
      with "4.IH"(2) [OF pv refl sk True] l1 lcs show ?thesis
        by fastforce
    next
      case False
      with pe pv sk have "r = cs" by (auto split: if_splits)
      with l1 lcs show ?thesis by simp
    qed
  qed
next
  case (5 s)
  show ?case by simp
next
  case (6 n s)
  show ?case
  proof (intro allI impI)
    fix kvs r assume pm: "parse_members (Suc n) s = Inr (kvs, r)"
    then obtain q cs where sk: "skip_ws s = q # cs"
      by (auto split: list.splits)
    from pm sk have q: "q = CHR 0x22" by (auto split: if_splits)
    from pm sk q obtain k r1 where pc: "parse_chars cs = Inr (k, r1)"
      by (auto split: sum.splits)
    from pm sk q pc obtain col r2 where sk2: "skip_ws r1 = col # r2"
      by (auto split: list.splits)
    from pm sk q pc sk2 have col: "col = CHR '':''" by (auto split: if_splits)
    from pm sk q pc sk2 col obtain v r3 where pv: "parse_value n r2 = Inr (v, r3)"
      by (auto split: sum.splits)
    from pm sk q pc sk2 col pv obtain d ds where sk3: "skip_ws r3 = d # ds"
      by (auto split: list.splits)
    from "6.IH"(1) [OF sk q pc refl sk2 col] pv have l3: "length r3 \<le> length r2"
      by simp
    from skip_ws_ConsD [OF sk] parse_chars_length [OF pc] skip_ws_ConsD [OF sk2] l3
      skip_ws_ConsD [OF sk3]
    have lds: "length ds < length s" by simp
    show "length r \<le> length s"
    proof (cases "d = CHR '',''")
      case True
      with pm sk q pc sk2 col pv sk3 obtain ws where "parse_members n ds = Inr (ws, r)"
        by (auto dest!: map_parsed_InrD)
      with "6.IH"(2) [OF sk q pc refl sk2 col pv refl sk3 True] lds show ?thesis
        by fastforce
    next
      case False
      with pm sk q pc sk2 col pv sk3 have "r = ds" by (auto split: if_splits)
      with lds show ?thesis by simp
    qed
  qed
qed


lemma parse_literal_fuel: "parse_literal s \<noteq> Inl OutOfFuel"
  by (simp add: parse_literal_def parse_number_def split: option.split)

lemma parse_chars_fuel_aux: "length s \<le> k \<Longrightarrow> parse_chars s \<noteq> Inl OutOfFuel"
proof (induction k arbitrary: s)
  case 0
  then show ?case by simp
next
  case (Suc k)
  show ?case
  proof (cases s)
    case Nil
    then show ?thesis by simp
  next
    case (Cons c cs)
    with Suc.prems have "length cs \<le> k" by simp
    then show ?thesis
      unfolding Cons
      by (subst parse_chars.simps)
         (auto simp del: parse_chars.simps simp add: map_parsed_OutOfFuel
           split: list.split option.split intro!: Suc.IH)
  qed
qed

lemma parse_chars_fuel: "parse_chars s \<noteq> Inl OutOfFuel"
  by (rule parse_chars_fuel_aux [OF order_refl])

lemma parse_fuel_enough:
  "(2 * length s + 1 \<le> n \<longrightarrow> parse_value n s \<noteq> Inl OutOfFuel)"
  "(2 * length s + 2 \<le> n \<longrightarrow> parse_elements n s \<noteq> Inl OutOfFuel)"
  "(2 * length s + 2 \<le> n \<longrightarrow> parse_members n s \<noteq> Inl OutOfFuel)"
proof (induction n s and n s and n s rule: parse_value_parse_elements_parse_members.induct)
  case (1 s)
  show ?case by simp
next
  case (2 n s)
  show ?case
  proof
    assume n: "2 * length s + 1 \<le> Suc n"
    show "parse_value (Suc n) s \<noteq> Inl OutOfFuel"
    proof (cases "skip_ws s")
      case Nil
      then show ?thesis by simp
    next
      case sk: (Cons c cs)
      from skip_ws_ConsD [OF sk] n have ncs: "2 * length cs + 2 \<le> n" by simp
      consider (str) "c = CHR 0x22"
        | (arr) "c \<noteq> CHR 0x22" "c = CHR ''[''"
        | (obj) "c \<noteq> CHR 0x22" "c \<noteq> CHR ''[''" "c = CHR ''{''"
        | (lit) "c \<noteq> CHR 0x22" "c \<noteq> CHR ''[''" "c \<noteq> CHR ''{''"
        by blast
      then show ?thesis
      proof cases
        case str
        with sk show ?thesis by (simp add: map_parsed_OutOfFuel parse_chars_fuel)
      next
        case arr
        show ?thesis
        proof (cases "skip_ws cs")
          case Nil
          with sk arr show ?thesis by simp
        next
          case sk2: (Cons d ds)
          show ?thesis
          proof (cases "d = CHR '']''")
            case True
            with sk arr sk2 show ?thesis by simp
          next
            case False
            from "2.IH"(1) [OF sk _ arr(2) sk2 False] arr(1) ncs
            have "parse_elements n cs \<noteq> Inl OutOfFuel" by simp
            with sk arr sk2 False show ?thesis by (simp add: map_parsed_OutOfFuel)
          qed
        qed
      next
        case obj
        show ?thesis
        proof (cases "skip_ws cs")
          case Nil
          with sk obj show ?thesis by simp
        next
          case sk2: (Cons d ds)
          show ?thesis
          proof (cases "d = CHR ''}''")
            case True
            with sk obj sk2 show ?thesis by simp
          next
            case False
            from "2.IH"(2) [OF sk _ _ obj(3) sk2 False] obj(1,2) ncs
            have "parse_members n cs \<noteq> Inl OutOfFuel" by simp
            with sk obj sk2 False show ?thesis by (simp add: map_parsed_OutOfFuel)
          qed
        qed
      next
        case lit
        with sk show ?thesis by (simp add: parse_literal_fuel)
      qed
    qed
  qed
next
  case (3 s)
  show ?case by simp
next
  case (4 n s)
  show ?case
  proof
    assume n: "2 * length s + 2 \<le> Suc n"
    with "4.IH"(1) have pv: "parse_value n s \<noteq> Inl OutOfFuel" by simp
    show "parse_elements (Suc n) s \<noteq> Inl OutOfFuel"
    proof (cases "parse_value n s")
      case (Inl e)
      with pv show ?thesis by simp
    next
      case (Inr p)
      then obtain v r where p: "parse_value n s = Inr (v, r)" by (cases p) simp
      from parse_length(1) [of n s] p have lr: "length r \<le> length s" by simp
      show ?thesis
      proof (cases "skip_ws r")
        case Nil
        with p show ?thesis by simp
      next
        case sk: (Cons c cs)
        show ?thesis
        proof (cases "c = CHR '',''")
          case True
          from skip_ws_ConsD [OF sk] lr n have "2 * length cs + 2 \<le> n" by simp
          with "4.IH"(2) [OF p refl sk True] have "parse_elements n cs \<noteq> Inl OutOfFuel"
            by simp
          with p sk True show ?thesis by (simp add: map_parsed_OutOfFuel)
        next
          case False
          with p sk show ?thesis by simp
        qed
      qed
    qed
  qed
next
  case (5 s)
  show ?case by simp
next
  case (6 n s)
  show ?case
  proof
    assume n: "2 * length s + 2 \<le> Suc n"
    show "parse_members (Suc n) s \<noteq> Inl OutOfFuel"
    proof (cases "skip_ws s")
      case Nil
      then show ?thesis by simp
    next
      case sk: (Cons q cs)
      show ?thesis
      proof (cases "q = CHR 0x22")
        case False
        with sk show ?thesis by simp
      next
        case q: True
        show ?thesis
        proof (cases "parse_chars cs")
          case (Inl e)
          with parse_chars_fuel [of cs] have "e \<noteq> OutOfFuel" by auto
          with sk q Inl show ?thesis by simp
        next
          case (Inr p)
          then obtain k r1 where pc: "parse_chars cs = Inr (k, r1)" by (cases p) simp
          show ?thesis
          proof (cases "skip_ws r1")
            case Nil
            with sk q pc show ?thesis by simp
          next
            case sk2: (Cons col r2)
            show ?thesis
            proof (cases "col = CHR '':''")
              case False
              with sk q pc sk2 show ?thesis by simp
            next
              case col: True
              from skip_ws_ConsD [OF sk] parse_chars_length [OF pc] skip_ws_ConsD [OF sk2]
              have lr2: "length r2 < length s" by simp
              with n have "2 * length r2 + 1 \<le> n" by simp
              with "6.IH"(1) [OF sk q pc refl sk2 col]
              have pvf: "parse_value n r2 \<noteq> Inl OutOfFuel" by simp
              show ?thesis
              proof (cases "parse_value n r2")
                case (Inl e)
                with pvf sk q pc sk2 col show ?thesis by simp
              next
                case (Inr p')
                then obtain v r3 where pv: "parse_value n r2 = Inr (v, r3)" by (cases p') simp
                from parse_length(1) [of n r2] pv have lr3: "length r3 \<le> length r2" by simp
                show ?thesis
                proof (cases "skip_ws r3")
                  case Nil
                  with sk q pc sk2 col pv show ?thesis by simp
                next
                  case sk3: (Cons d ds)
                  show ?thesis
                  proof (cases "d = CHR '',''")
                    case True
                    from skip_ws_ConsD [OF sk3] lr3 lr2 n have "2 * length ds + 2 \<le> n"
                      by simp
                    with "6.IH"(2) [OF sk q pc refl sk2 col pv refl sk3 True]
                    have "parse_members n ds \<noteq> Inl OutOfFuel" by simp
                    with sk q pc sk2 col pv sk3 True show ?thesis
                      by (simp add: map_parsed_OutOfFuel)
                  next
                    case False
                    with sk q pc sk2 col pv sk3 show ?thesis by simp
                  qed
                qed
              qed
            qed
          qed
        qed
      qed
    qed
  qed
qed

lemma JSON_parse_fuel: "JSON_parse s \<noteq> Inl OutOfFuel"
  using parse_fuel_enough(1) [of s "2 * length s + 1"]
  by (auto simp: JSON_parse_def split: sum.splits)

subsection \<open>Saving and loading\<close>

lemma category_of_string_category_string: "category_of_string (category_string c) = Some c"
  by (cases c) (simp_all add: category_of_string_def category_string_def)

lemma json_to_task_task_to_json: "json_to_task (task_to_json t) = Some t"
  by (cases "isNew t"; cases "isDeleting t")
     (simp_all add: json_to_task_def task_to_json_def flag_member_def get_prop_def task_keys_def
       category_of_string_category_string)

lemma json_to_tasks_tasks_to_json: "json_to_tasks (tasks_to_json ts) = Some ts"
  by (induction ts) (simp_all add: json_to_tasks_def tasks_to_json_def json_to_task_task_to_json)

lemma number_free_task_to_json: "number_free (task_to_json t)"
  by (cases "isNew t"; cases "isDeleting t") (simp_all add: task_to_json_def flag_member_def)

lemma number_free_tasks_to_json: "number_free (tasks_to_json ts)"
  by (induction ts) (simp_all add: tasks_to_json_def number_free_task_to_json)

lemma JSON_parse_tasks: "JSON_parse (JSON_stringify (tasks_to_json ts)) = Inr (tasks_to_json ts)"
  by (rule JSON_parse_stringify) (rule number_free_tasks_to_json)

lemma stringify_tasks_nonempty: "JSON_stringify (tasks_to_json ts) \<noteq> []"
  by (simp add: tasks_to_json_def)

text \<open>Reading back what the effect wrote gives the tasks that are not being deleted.\<close>

lemma initialTasks_in_sync:
  "in_sync st \<Longrightarrow>
     initialTasks (localStorage st) =
       Ok (filter (\<lambda>task. \<not> truthy (isDeleting task)) (app_tasks st))"
  by (simp add: in_sync_def initialTasks_def stringify_tasks_nonempty JSON_parse_tasks
      json_to_tasks_tasks_to_json)

lemma in_sync_persist: "in_sync (persist st)"
  by (simp add: in_sync_def persist_def)

lemma not_deleting_after_deleteTask:
  "task_id ` set (filter (\<lambda>task. \<not> truthy (isDeleting task)) (deleteTask taskId current))
     \<subseteq> task_id ` set current - {taskId}"
  by (induction current) (auto simp: deleteTask_def)

text \<open>
  C3, as amended. Writing a task list with the effect and reading it back with the
  initialiser gives the tasks whose \<open>isDeleting\<close> is not true, in their order and with
  every field as it was, \<open>isNew\<close> and \<open>isDeleting\<close> included. The text written parses to
  the array of the objects of those tasks: each has the fields \<open>id\<close>, \<open>text\<close>, \<open>completed\<close>
  and \<open>category\<close>, and also \<open>isNew\<close> or \<open>isDeleting\<close> when the task has that flag.
\<close>

theorem save_then_load:
  "initialTasks (localStorage (persist st)) =
     Ok (filter (\<lambda>task. \<not> truthy (isDeleting task)) (app_tasks st)) \<and>
   (\<exists>saved. localStorage (persist st) ''tasks'' = Some saved \<and>
      JSON_parse saved =
        Inr (JArr (map task_to_json (filter (\<lambda>task. \<not> truthy (isDeleting task)) (app_tasks st)))))"
proof -
  have "app_tasks (persist st) = app_tasks st"
    by (simp add: persist_def)
  with initialTasks_in_sync [OF in_sync_persist, of st]
  have "initialTasks (localStorage (persist st)) =
     Ok (filter (\<lambda>task. \<not> truthy (isDeleting task)) (app_tasks st))"
    by simp
  moreover have "localStorage (persist st) ''tasks'' =
      Some (JSON_stringify (tasks_to_json (filter (\<lambda>task. \<not> truthy (isDeleting task)) (app_tasks st))))"
    by (simp add: persist_def)
  ultimately show ?thesis
    using JSON_parse_tasks [of "filter (\<lambda>task. \<not> truthy (isDeleting task)) (app_tasks st)"]
    by (simp add: tasks_to_json_def)
qed

theorem save_then_load_witness:
  "initialTasks (localStorage (persist
      \<lparr>app_tasks = deleteTask ''4'' defaultTasks, localStorage = Map.empty, timers = []\<rparr>)) =
     Ok (butlast defaultTasks)"
  using save_then_load
    [of "\<lparr>app_tasks = deleteTask ''4'' defaultTasks, localStorage = Map.empty, timers = []\<rparr>"]
  by (simp add: deleteTask_def defaultTasks_def)

text \<open>
  C3 as stated says that a persisted record has the four fields only, the flags left out.
  The task \<^verbatim>\<open>addTask\<close> creates is written with \<^verbatim>\<open>"isNew":true\<close>, and read back with it.
\<close>

theorem persisted_isNew_counterexample:
  "localStorage (persist
      \<lparr>app_tasks = addTask ''Stretch'' physical 5 [], localStorage = Map.empty, timers = []\<rparr>)
     ''tasks'' \<noteq> None \<and>
   JSON_parse (the (localStorage (persist
      \<lparr>app_tasks = addTask ''Stretch'' physical 5 [], localStorage = Map.empty, timers = []\<rparr>)
     ''tasks'')) =
     Inr (JArr [JObj [(''id'', JStr ''5''), (''text'', JStr ''Stretch''),
                      (''completed'', JBool False), (''category'', JStr ''physical''),
                      (''isNew'', JBool True)]]) \<and>
   initialTasks (localStorage (persist
      \<lparr>app_tasks = addTask ''Stretch'' physical 5 [], localStorage = Map.empty, timers = []\<rparr>)) =
     Ok [\<lparr>task_id = ''5'', task_text = ''Stretch'', completed = False, category = physical,
          isNew = Some True, isDeleting = None\<rparr>]"
proof -
  let ?new = "\<lparr>task_id = ''5'', task_text = ''Stretch'', completed = False, category = physical,
          isNew = Some True, isDeleting = None\<rparr>"
  let ?st = "\<lparr>app_tasks = [?new], localStorage = Map.empty, timers = []\<rparr>"
  have new: "addTask ''Stretch'' physical 5 [] = [?new]"
    by (simp add: addTask_def trim_def is_space_def toString_def nat_toString.simps digit_char_def)
  have saved: "localStorage (persist ?st) ''tasks'' = Some (JSON_stringify (tasks_to_json [?new]))"
    by (simp add: persist_def)
  have json: "tasks_to_json [?new] =
      JArr [JObj [(''id'', JStr ''5''), (''text'', JStr ''Stretch''),
                  (''completed'', JBool False), (''category'', JStr ''physical''),
                  (''isNew'', JBool True)]]"
    by (simp add: tasks_to_json_def task_to_json_def flag_member_def category_string_def)
  have "in_sync (persist ?st)" by (rule in_sync_persist)
  from initialTasks_in_sync [OF this]
  have "initialTasks (localStorage (persist ?st)) = Ok [?new]"
    by (simp add: persist_def)
  with saved JSON_parse_tasks [of "[?new]"] show ?thesis
    unfolding new json by simp
qed

text \<open>Three stored texts: one that is not JSON, one that breaks off, one that is not an array.\<close>

lemma JSON_parse_undefined: "JSON_parse ''undefined'' = Inl SyntaxError"
proof -
  have "parse_value (Suc n) ''undefined'' = Inl SyntaxError" for n
    by (simp add: skip_ws_def is_ws_def parse_literal_def
        parse_number_def scan_sign_def scan_int_def scan_digits_def is_digit_def)
  moreover have "2 * length ''undefined'' + 1 = Suc 18" by simp
  ultimately show ?thesis
    by (simp only: JSON_parse_def sum.case)
qed

lemma JSON_parse_brace: "JSON_parse ''{'' = Inl SyntaxError"
proof -
  have "parse_value (Suc n) ''{'' = Inl SyntaxError" for n
    by (simp add: skip_ws_def is_ws_def)
  moreover have "2 * length ''{'' + 1 = Suc 2" by simp
  ultimately show ?thesis
    by (simp only: JSON_parse_def sum.case)
qed

lemma JSON_parse_null: "JSON_parse ''null'' = Inr JNull"
proof -
  have "parse_value (Suc n) ''null'' = Inr (JNull, [])" for n
    by (simp add: skip_ws_def is_ws_def parse_literal_def)
  moreover have "2 * length ''null'' + 1 = Suc 8" by simp
  moreover have "skip_ws [] = []" by (simp add: skip_ws_def)
  ultimately show ?thesis
    by (simp only: JSON_parse_def sum.case prod.case refl if_True)
qed

text \<open>
  C1. The claim says that a stored value that does not parse makes the task list the four
  default tasks, with no crash. The initialiser falls back to the defaults for a missing
  value only (lemma \<open>initialTasks_absent\<close>); for the stored text \<^verbatim>\<open>undefined\<close> it throws the
  \<open>SyntaxError\<close> of \<^verbatim>\<open>JSON.parse\<close>, and the component does not mount.
\<close>

theorem initialTasks_malformed_throws:
  "initialTasks [''tasks'' \<mapsto> ''undefined''] = Throws SyntaxError \<and>
   mount [''tasks'' \<mapsto> ''undefined''] = Throws SyntaxError"
  by (simp add: initialTasks_def mount_def JSON_parse_undefined)

lemma initialTasks_absent:
  "initialTasks Map.empty = Ok defaultTasks"
  "length defaultTasks = 4"
  "map category defaultTasks = [physical, spiritual, mental, chores]"
  by (simp_all add: initialTasks_def defaultTasks_def)

text \<open>Whatever \<^verbatim>\<open>JSON.parse\<close> throws on the stored text, the initialiser throws.\<close>

lemma initialTasks_unparseable:
  "savedTasks \<noteq> [] \<Longrightarrow> JSON_parse savedTasks = Inl e \<Longrightarrow>
     initialTasks [''tasks'' \<mapsto> savedTasks] = Throws e"
  by (simp add: initialTasks_def)

lemma initialTasks_empty_string: "initialTasks [''tasks'' \<mapsto> []] = Ok defaultTasks"
  by (simp add: initialTasks_def)

lemma initialTasks_brace: "initialTasks [''tasks'' \<mapsto> ''{''] = Throws SyntaxError"
  by (simp add: initialTasks_def JSON_parse_brace)

lemma initialTasks_null: "initialTasks [''tasks'' \<mapsto> ''null''] = IllTyped JNull"
  by (simp add: initialTasks_def JSON_parse_null json_to_tasks_def)

subsection \<open>Deleting\<close>

lemma fields_persist [simp]:
  "app_tasks (persist st) = app_tasks st" "timers (persist st) = timers st"
  "rendered (persist st) = rendered st" "dirty (persist st) = dirty st"
  by (simp_all add: persist_def)

lemma fields_setTasks [simp]:
  "app_tasks (setTasks ts st) = ts" "timers (setTasks ts st) = timers st"
  "rendered (setTasks ts st) = rendered st" "dirty (setTasks ts st)"
  "localStorage (setTasks ts st) = localStorage st"
  by (simp_all add: setTasks_def)

lemma fields_render [simp]:
  "app_tasks (render st) = app_tasks st" "timers (render st) = timers st"
  "rendered (render st) = app_tasks st" "\<not> dirty (render st)"
  by (simp_all add: render_def Let_def)

lemma mount_absent: "mount Map.empty = Ok mounted_defaults"
  by (simp add: mount_def initialTasks_def mounted_defaults_def)

text \<open>What the effect wrote stays in step with the last render, whatever happens.\<close>

lemma saved_rendered_mount: "mount storage = Ok st \<Longrightarrow> saved_rendered st"
  by (auto simp: mount_def saved_rendered_def persist_def split: outcome.splits)

lemma saved_rendered_render: "saved_rendered st \<Longrightarrow> saved_rendered (render st)"
  by (auto simp: saved_rendered_def render_def persist_def Let_def)

lemma saved_rendered_step: "saved_rendered st \<Longrightarrow> step e st = Some st' \<Longrightarrow> saved_rendered st'"
proof (cases e)
  case Render
  assume "saved_rendered st" "step e st = Some st'"
  with Render show ?thesis by (auto intro: saved_rendered_render)
qed (auto simp: saved_rendered_def split: if_splits option.splits)

lemma saved_rendered_run: "saved_rendered st \<Longrightarrow> run es st = Some st' \<Longrightarrow> saved_rendered st'"
proof (induction es arbitrary: st)
  case Nil
  then show ?case by simp
next
  case (Cons e es)
  then show ?case
    by (auto split: option.splits dest: saved_rendered_step)
qed

text \<open>
  The half of C7 that holds. From the first render on, whatever events follow, the stored
  value reads back as a list in which no task has \<open>isDeleting\<close> true.
\<close>

lemma stored_never_deleting:
  assumes "mount storage = Ok st" and "run events st = Some st'"
  shows "\<exists>stored. initialTasks (localStorage st') = Ok stored \<and>
           (\<forall>t \<in> set stored. \<not> truthy (isDeleting t))"
proof -
  from saved_rendered_mount [OF assms(1)] assms(2) have "saved_rendered st'"
    by (rule saved_rendered_run)
  then have "in_sync (st'\<lparr>app_tasks := rendered st'\<rparr>)"
    by (simp add: saved_rendered_def in_sync_def)
  from initialTasks_in_sync [OF this] show ?thesis by simp
qed

text \<open>
  With a render right after the confirmation, the stored list has no task with the id, and
  the removal is pending.
\<close>

lemma confirm_then_render:
  assumes "run [DeleteConfirm taskId, Render] st = Some st'"
  shows "\<exists>stored. initialTasks (localStorage st') = Ok stored \<and> taskId \<notin> task_id ` set stored"
    and "RemoveTask taskId \<in> set (timers st')"
proof -
  from assms have st': "st' = render ((setTasks (deleteTask taskId (app_tasks st)) st)
      \<lparr>timers := timers st @ [RemoveTask taskId]\<rparr>)"
    by simp
  then have "st' = persist (((setTasks (deleteTask taskId (app_tasks st)) st)
      \<lparr>timers := timers st @ [RemoveTask taskId]\<rparr>)\<lparr>rendered := deleteTask taskId (app_tasks st), dirty := False\<rparr>)"
    by (simp add: render_def Let_def)
  then have "in_sync st'" "app_tasks st' = deleteTask taskId (app_tasks st)"
    by (simp_all add: in_sync_persist)
  with initialTasks_in_sync [of st']
  have "initialTasks (localStorage st') =
      Ok (filter (\<lambda>task. \<not> truthy (isDeleting task)) (deleteTask taskId (app_tasks st)))"
    by simp
  moreover have "taskId \<notin> task_id `
      set (filter (\<lambda>task. \<not> truthy (isDeleting task)) (deleteTask taskId (app_tasks st)))"
    using not_deleting_after_deleteTask [of taskId "app_tasks st"] by blast
  ultimately show "\<exists>stored. initialTasks (localStorage st') = Ok stored \<and>
      taskId \<notin> task_id ` set stored"
    by simp
  from st' show "RemoveTask taskId \<in> set (timers st')" by simp
qed

text \<open>When the removal fires, the state it leaves has no task with the id.\<close>

lemma removal_fires:
  "step (Timeout (RemoveTask taskId)) st = Some st' \<Longrightarrow> taskId \<notin> task_id ` set (app_tasks st')"
  by (auto simp: deleteTask_timeout_def split: if_splits)

text \<open>
  C7. The claim says that once the removal delay has fired no task with the id is in
  memory. \<^verbatim>\<open>toggleTask\<close> writes back a list made from the \<^verbatim>\<open>tasks\<close> of its render. With the
  default tasks: the deletion of ``Make the bed'' is confirmed, the component renders, the
  removal fires and leaves the tasks 1, 2 and 3; a click on the completion button of task 2
  before the next render puts the four tasks of the last render back. Task 4 is in memory
  again, with \<open>isDeleting\<close> true, and no timer is left to remove it.
\<close>

theorem removal_undone_by_stale_toggle:
  "map_option (\<lambda>st. map task_id (app_tasks st))
     (run [DeleteConfirm ''4'', Render, Timeout (RemoveTask ''4'')] mounted_defaults) =
     Some [''1'', ''2'', ''3''] \<and>
   map_option (\<lambda>st. (map task_id (app_tasks st), map isDeleting (app_tasks st), timers st))
     (run [DeleteConfirm ''4'', Render, Timeout (RemoveTask ''4''), ToggleClick ''2'', Render]
        mounted_defaults) =
     Some ([''1'', ''2'', ''3'', ''4''], [None, None, None, Some True], [])"
  by (simp add: mounted_defaults_def deleteTask_def deleteTask_timeout_def toggleTask_def
      defaultTasks_def)

text \<open>The same with a submission in place of the click.\<close>

lemma removal_undone_by_stale_submit:
  "map_option (\<lambda>st. map task_id (app_tasks st))
     (run [DeleteConfirm ''4'', Render, Timeout (RemoveTask ''4''),
           Submit ''Stretch'' physical 1700000000000, Render] mounted_defaults) =
     Some [''1'', ''2'', ''3'', ''4'', ''1700000000000'']"
  by (simp add: mounted_defaults_def deleteTask_def deleteTask_timeout_def addTask_def
      defaultTasks_def trim_def is_space_def toString_def nat_toString.simps digit_char_def)

text \<open>With a render between the removal and the click, the task stays removed.\<close>

lemma removal_kept_after_render:
  "map_option (\<lambda>st. map task_id (app_tasks st))
     (run [DeleteConfirm ''4'', Render, Timeout (RemoveTask ''4''), Render, ToggleClick ''2'', Render]
        mounted_defaults) =
     Some [''1'', ''2'', ''3'']"
  by (simp add: mounted_defaults_def deleteTask_def deleteTask_timeout_def toggleTask_def
      defaultTasks_def)

end
